theory Spec2Isabelle
  imports Complex_Main
begin

section \<open>Tensors\<close>

text \<open>
  The notebook computes on torch tensors of floating-point numbers. The embedding takes
  the entries as real numbers: every operation is the exact one that the floating-point
  operation rounds. A 1-D tensor is a list, a 2-D tensor is the list of its rows.
\<close>

type_synonym vec = "real list"
type_synonym mat = "real list list"

text \<open>
  Every failure of the notebook is a \<open>RuntimeError\<close> raised inside a torch call. The
  constructors tell which call raises: a size check, the Cholesky factorisation
  (\<open>torch.cholesky\<close>), or a triangular solve on a zero diagonal (\<open>torch.trtrs\<close>).
\<close>

datatype error = SizeMismatch | CholeskyFailed | SingularTriangular

definition raising :: "error + 'a \<Rightarrow> ('a \<Rightarrow> error + 'b) \<Rightarrow> error + 'b" where
  \<comment> \<open>sequencing: an exception raised by a call ends the function that made the call\<close>
  "raising r f = (case r of Inl e \<Rightarrow> Inl e | Inr x \<Rightarrow> f x)"

definition dot :: "vec \<Rightarrow> vec \<Rightarrow> real" where
  "dot a b = sum_list (map2 (*) a b)"

definition unsqueeze_last :: "vec \<Rightarrow> mat" where
  \<comment> \<open>\<open>x[..., None]\<close>: a length-N vector becomes an N x 1 matrix\<close>
  "unsqueeze_last x = map (\<lambda>v. [v]) x"

section \<open>Pairwise distances and the RBF kernel\<close>

definition pow2_sum :: "vec \<Rightarrow> real" where
  \<comment> \<open>\<open>x.pow(2).sum(dim=-1)\<close> for one row\<close>
  "pow2_sum p = sum_list (map (\<lambda>c. c\<^sup>2) p)"

definition clamp_floor :: real where
  \<comment> \<open>the constant \<open>1e-30\<close> of \<open>clamp_min_\<close>\<close>
  "clamp_floor = 1 / 10 ^ 30"

definition cdist :: "mat \<Rightarrow> mat \<Rightarrow> error + mat" where
  \<comment> \<open>\<open>x1\<close> is N x D and \<open>x2\<close> is M x D; \<open>torch.addmm\<close> raises when the two row widths
      differ. Entry (i, j) is \<open>addmm\<close>'s \<open>x2_norm[j] + (-2) * (x1[i] . x2[j])\<close>, then
      \<open>add_(x1_norm)\<close>, then \<open>clamp_min_(1e-30)\<close>, then \<open>sqrt_\<close>.\<close>
  "cdist x1 x2 =
     (if list_all (\<lambda>a. list_all (\<lambda>b. length a = length b) x2) x1
      then Inr (map (\<lambda>a. map (\<lambda>b.
              sqrt (max ((pow2_sum b + (- 2) * dot a b) + pow2_sum a) clamp_floor)) x2) x1)
      else Inl SizeMismatch)"

definition rbf_entry :: "real \<Rightarrow> real \<Rightarrow> real \<Rightarrow> real" where
  \<comment> \<open>\<open>variance * exp(-d**2 / (2 * lengthscale**2))\<close> for one distance \<open>d\<close>. With
      \<open>lengthscale = 0\<close> the floating-point quotient \<open>-d**2 / 0\<close> is minus infinity
      (\<open>d\<close> comes from \<open>cdist\<close> and is never 0) and its exponential is 0, which is
      written out here.\<close>
  "rbf_entry lengthscale variance d =
     (if lengthscale = 0 then variance * 0
      else variance * exp (- d\<^sup>2 / (2 * lengthscale\<^sup>2)))"

definition rbf_kernel :: "vec \<Rightarrow> vec \<Rightarrow> real \<Rightarrow> real \<Rightarrow> error + mat" where
  "rbf_kernel x1 x2 lengthscale variance =
     (case cdist (unsqueeze_last x1) (unsqueeze_last x2) of
        Inl e \<Rightarrow> Inl e
      | Inr d \<Rightarrow> Inr (map (map (rbf_entry lengthscale variance)) d))"


section \<open>Linear algebra on lists of rows\<close>

definition eye :: "nat \<Rightarrow> mat" where
  \<comment> \<open>\<open>torch.eye(n)\<close>\<close>
  "eye n = map (\<lambda>i. map (\<lambda>j. if i = j then 1 else 0) [0..<n]) [0..<n]"

definition mat_add :: "mat \<Rightarrow> mat \<Rightarrow> mat" where
  "mat_add A B = map2 (map2 (+)) A B"

definition mat_sub :: "mat \<Rightarrow> mat \<Rightarrow> mat" where
  "mat_sub A B = map2 (map2 (-)) A B"

definition mat_t :: "nat \<Rightarrow> mat \<Rightarrow> mat" where
  \<comment> \<open>\<open>A.t()\<close> of a matrix with \<open>ncols\<close> columns; the list of rows of a matrix without
      rows does not tell its width, so the width is an argument\<close>
  "mat_t ncols A = map (\<lambda>j. map (\<lambda>r. r ! j) A) [0..<ncols]"

definition matmul :: "nat \<Rightarrow> mat \<Rightarrow> mat \<Rightarrow> mat" where
  \<comment> \<open>\<open>torch.matmul(A, B)\<close> where \<open>B\<close> has \<open>p\<close> columns\<close>
  "matmul p A B = map (\<lambda>r. map (\<lambda>c. dot r (map (\<lambda>br. br ! c) B)) [0..<p]) A"

definition diag :: "mat \<Rightarrow> vec" where
  \<comment> \<open>\<open>torch.diag\<close> of a square matrix\<close>
  "diag A = map (\<lambda>i. A ! i ! i) [0..<length A]"

definition is_square :: "mat \<Rightarrow> bool" where
  "is_square A = list_all (\<lambda>r. length r = length A) A"

subsection \<open>Triangular solves\<close>

text \<open>
  Forward substitution for a lower-triangular system: the loop over the rows \<open>0, ..., n-1\<close>;
  \<open>forward_subst L b i\<close> is the solution's prefix of length \<open>i\<close>. Only the entries of
  \<open>L\<close> on and below the diagonal are read.
\<close>

fun forward_subst :: "mat \<Rightarrow> vec \<Rightarrow> nat \<Rightarrow> vec" where
  "forward_subst L b 0 = []"
| "forward_subst L b (Suc i) =
     (let z = forward_subst L b i
      in z @ [(b ! i - dot (take i (L ! i)) z) / L ! i ! i])"

text \<open>
  Backward substitution for an upper-triangular system of size \<open>n\<close>: the loop over the rows
  \<open>n-1, ..., 0\<close>; \<open>backward_subst U b n k\<close> is the solution's suffix of length \<open>k\<close>. Only
  the entries of \<open>U\<close> on and above the diagonal are read.
\<close>

fun backward_subst :: "mat \<Rightarrow> vec \<Rightarrow> nat \<Rightarrow> nat \<Rightarrow> vec" where
  "backward_subst U b n 0 = []"
| "backward_subst U b n (Suc k) =
     (let x = backward_subst U b n k; i = n - Suc k
      in ((b ! i - dot (drop (Suc i) (U ! i)) x) / U ! i ! i) # x)"

definition trtrs :: "mat \<Rightarrow> mat \<Rightarrow> bool \<Rightarrow> error + mat" where
  \<comment> \<open>\<open>torch.trtrs(b, A, upper)[0]\<close>: the solution \<open>X\<close> of \<open>A X = b\<close> for a triangular
      \<open>A\<close>, every column of \<open>b\<close> solved on its own. The routine raises on a size mismatch
      and on an exactly zero diagonal entry of \<open>A\<close>. A 1-D \<open>b\<close> is taken as one
      column, which the callers below write as \<open>unsqueeze_last\<close>.\<close>
  "trtrs b A upper =
     (let n = length A; p = (if b = [] then 0 else length (hd b))
      in if \<not> (is_square A \<and> length b = n \<and> list_all (\<lambda>r. length r = p) b)
         then Inl SizeMismatch
         else if list_ex (\<lambda>i. A ! i ! i = 0) [0..<n] then Inl SingularTriangular
         else Inr (mat_t n (map (\<lambda>c. if upper then backward_subst A c n n
                                      else forward_subst A c n) (mat_t p b))))"

subsection \<open>Cholesky factorisation\<close>

text \<open>
  \<open>chol_rows A n i\<close> is the first \<open>i\<close> rows of the lower Cholesky factor of the
  \<open>n x n\<close> matrix \<open>A\<close>, or \<open>None\<close> when a pivot is not positive. Row \<open>i\<close> is
  \<open>L[i][j] = (A[i][j] - sum_{k<j} L[i][k] L[j][k]) / L[j][j]\<close> for \<open>j < i\<close>, which is the
  forward substitution of the rows above against \<open>A[i][0..i)\<close>, then
  \<open>L[i][i] = sqrt (A[i][i] - sum_{k<i} L[i][k]^2)\<close>, then zeros. Only the entries of \<open>A\<close>
  on and below the diagonal are read.
\<close>

definition chol_off :: "mat \<Rightarrow> mat \<Rightarrow> nat \<Rightarrow> vec" where
  \<comment> \<open>the entries \<open>L[i][0..i)\<close>, from the rows \<open>Ls\<close> above\<close>
  "chol_off A Ls i = forward_subst Ls (take i (A ! i)) i"

definition chol_pivot :: "mat \<Rightarrow> mat \<Rightarrow> nat \<Rightarrow> real" where
  \<comment> \<open>\<open>A[i][i] - sum_{k<i} L[i][k]^2\<close>\<close>
  "chol_pivot A Ls i = A ! i ! i - dot (chol_off A Ls i) (chol_off A Ls i)"

definition chol_row :: "mat \<Rightarrow> mat \<Rightarrow> nat \<Rightarrow> nat \<Rightarrow> vec" where
  "chol_row A Ls n i =
     chol_off A Ls i @ [sqrt (chol_pivot A Ls i)] @ replicate (n - Suc i) 0"

fun chol_rows :: "mat \<Rightarrow> nat \<Rightarrow> nat \<Rightarrow> mat option" where
  "chol_rows A n 0 = Some []"
| "chol_rows A n (Suc i) =
     (case chol_rows A n i of
        None \<Rightarrow> None
      | Some Ls \<Rightarrow>
          if chol_pivot A Ls i \<le> 0 then None
          else Some (Ls @ [chol_row A Ls n i]))"

definition cholesky :: "mat \<Rightarrow> error + mat" where
  \<comment> \<open>\<open>torch.cholesky(A)\<close>, lower factor: raises when \<open>A\<close> is not square and when the
      factorisation meets a pivot that is not positive. What the routine does on a
      matrix without entries depends on the torch version; the notebook never passes
      one, and the results below that state a returned value take at least one
      observation and one test point.\<close>
  "cholesky A =
     (if \<not> is_square A then Inl SizeMismatch
      else case chol_rows A (length A) (length A) of
             None \<Rightarrow> Inl CholeskyFailed
           | Some L \<Rightarrow> Inr L)"

section \<open>GP inference\<close>

text \<open>
  The third entry of \<open>params\<close> is either one number (\<open>noise = 1e-5\<close>, or
  \<open>logsigman.exp()\<close>) or a 1-D tensor with one variance per observation
  (\<open>obs_t_transf_var[:, 0]\<close>).
\<close>

datatype noise = Scalar real | PerPoint vec

type_synonym params = "real \<times> real \<times> noise"

definition noise_times_eye :: "noise \<Rightarrow> nat \<Rightarrow> error + mat" where
  \<comment> \<open>\<open>noise * torch.eye(n)\<close>. A number multiplies every entry. A vector is broadcast
      along the rows, so that entry (i, j) is \<open>noise[j] * eye[i][j]\<close>; a vector of
      length 1 is broadcast like a number; any other length does not broadcast to a
      square matrix and the call raises (for \<open>n = 1\<close> torch raises one step later,
      in \<open>torch.cholesky\<close>, on a matrix that is not square).\<close>
  "noise_times_eye noise n =
     (case noise of
        Scalar s \<Rightarrow> Inr (map (map (\<lambda>e. s * e)) (eye n))
      | PerPoint ns \<Rightarrow>
          if length ns = n then Inr (map (\<lambda>row. map2 (*) ns row) (eye n))
          else if length ns = 1 then Inr (map (map (\<lambda>e. ns ! 0 * e)) (eye n))
          else Inl SizeMismatch)"

definition noisy_cov :: "mat \<Rightarrow> noise \<Rightarrow> nat \<Rightarrow> error + mat" where
  \<comment> \<open>\<open>K_y = K + noise * torch.eye(obs_x.shape[0])\<close>\<close>
  "noisy_cov K noise n =
     (case noise_times_eye noise n of
        Inl e \<Rightarrow> Inl e
      | Inr D \<Rightarrow> Inr (mat_add K D))"

definition log_lik_of :: "mat \<Rightarrow> mat \<Rightarrow> nat \<Rightarrow> real" where
  \<comment> \<open>\<open>-.5 * (sum(log(abs(diag(K_chol)))) + sum(z**2)) - N/2. * log(2 * pi)\<close> for the
      \<open>N x 1\<close> result \<open>z\<close> of the forward solve\<close>
  "log_lik_of K_chol z N =
     - (1 / 2) * (sum_list (map (\<lambda>x. ln \<bar>x\<bar>) (diag K_chol))
                  + sum_list (map (\<lambda>x. x\<^sup>2) (concat z)))
     - real N / 2 * ln (2 * pi)"

definition gp_inference ::
  "vec \<Rightarrow> vec \<Rightarrow> vec \<Rightarrow> params \<Rightarrow> real \<Rightarrow> error + (vec \<times> mat \<times> real)" where
  "gp_inference obs_x obs_t0 x_new params prior_mean =
     (let lengthscale = fst params;
          variance = fst (snd params);
          noise = snd (snd params);
          obs_t = map (\<lambda>t. t - prior_mean) obs_t0;
          N = length obs_x;
          M = length x_new
      in
      raising (rbf_kernel obs_x obs_x lengthscale variance) (\<lambda>K.
      raising (noisy_cov K noise N) (\<lambda>K_y.
      raising (cholesky K_y) (\<lambda>K_chol.
      raising (trtrs (unsqueeze_last obs_t) K_chol False) (\<lambda>z.
      raising (trtrs z (mat_t N K_chol) True) (\<lambda>alpha.
      raising (rbf_kernel obs_x x_new lengthscale variance) (\<lambda>K_obs_pred.
      raising (rbf_kernel x_new x_new lengthscale variance) (\<lambda>K_pred.
      let posterior_m = matmul 1 (mat_t M K_obs_pred) alpha in
      raising (trtrs K_obs_pred K_chol False) (\<lambda>v0.
      raising (trtrs v0 (mat_t N K_chol) True) (\<lambda>v.
      let posterior_v = mat_sub K_pred (matmul M (mat_t M K_obs_pred) v) in
      raising (trtrs (unsqueeze_last obs_t) K_chol False) (\<lambda>z2.
      let log_lik = log_lik_of K_chol z2 N
      in Inr (map (\<lambda>row. row ! 0 + prior_mean) posterior_m, posterior_v,
              log_lik))))))))))))"

text \<open>
  The function once more, line by line, together with the list of the \<open>torch.trtrs\<close>
  calls that it makes, in the order of the source: \<open>Trtrs b A upper\<close> stands for one
  call \<open>torch.trtrs(b, A, upper=upper)\<close>. An exception ends the list with the call
  that raised it.
\<close>

datatype call = Trtrs mat mat bool

definition logging ::
  "call list \<times> (error + 'a) \<Rightarrow> ('a \<Rightarrow> call list \<times> (error + 'b)) \<Rightarrow> call list \<times> (error + 'b)" where
  "logging r f =
     (case snd r of
        Inl e \<Rightarrow> (fst r, Inl e)
      | Inr x \<Rightarrow> (fst r @ fst (f x), snd (f x)))"

definition no_call :: "error + 'a \<Rightarrow> call list \<times> (error + 'a)" where
  "no_call r = ([], r)"

definition trtrs_call :: "mat \<Rightarrow> mat \<Rightarrow> bool \<Rightarrow> call list \<times> (error + mat)" where
  "trtrs_call b A upper = ([Trtrs b A upper], trtrs b A upper)"

definition gp_inference_calls ::
  "vec \<Rightarrow> vec \<Rightarrow> vec \<Rightarrow> params \<Rightarrow> real \<Rightarrow> call list \<times> (error + (vec \<times> mat \<times> real))" where
  "gp_inference_calls obs_x obs_t0 x_new params prior_mean =
     (let lengthscale = fst params;
          variance = fst (snd params);
          noise = snd (snd params);
          obs_t = map (\<lambda>t. t - prior_mean) obs_t0;
          N = length obs_x;
          M = length x_new
      in
      logging (no_call (rbf_kernel obs_x obs_x lengthscale variance)) (\<lambda>K.
      logging (no_call (noisy_cov K noise N)) (\<lambda>K_y.
      logging (no_call (cholesky K_y)) (\<lambda>K_chol.
      logging (trtrs_call (unsqueeze_last obs_t) K_chol False) (\<lambda>z.
      logging (trtrs_call z (mat_t N K_chol) True) (\<lambda>alpha.
      logging (no_call (rbf_kernel obs_x x_new lengthscale variance)) (\<lambda>K_obs_pred.
      logging (no_call (rbf_kernel x_new x_new lengthscale variance)) (\<lambda>K_pred.
      let posterior_m = matmul 1 (mat_t M K_obs_pred) alpha in
      logging (trtrs_call K_obs_pred K_chol False) (\<lambda>v0.
      logging (trtrs_call v0 (mat_t N K_chol) True) (\<lambda>v.
      let posterior_v = mat_sub K_pred (matmul M (mat_t M K_obs_pred) v) in
      logging (trtrs_call (unsqueeze_last obs_t) K_chol False) (\<lambda>z2.
      let log_lik = log_lik_of K_chol z2 N
      in ([], Inr (map (\<lambda>row. row ! 0 + prior_mean) posterior_m, posterior_v,
                   log_lik)))))))))))))"

definition posterior_mean_of :: "mat \<Rightarrow> vec \<Rightarrow> nat \<Rightarrow> real \<Rightarrow> vec" where
  \<comment> \<open>the returned mean \<open>posterior_m[..., 0] + prior_mean\<close>, where \<open>posterior_m\<close> is
      \<open>torch.matmul(K_obs_pred.t(), alpha)\<close>, for the single column \<open>alpha\<close>\<close>
  "posterior_mean_of K_obs_pred alpha M prior_mean =
     map (\<lambda>row. row ! 0 + prior_mean) (matmul 1 (mat_t M K_obs_pred) (unsqueeze_last alpha))"

section \<open>Hyperparameter optimisation\<close>

text \<open>
  The training loop of the notebook, \<open>for i in range(200)\<close>, with the number of steps as
  an argument. The optimised state is \<open>(logl, logsigmaf, logsigman)\<close> together with the
  optimiser's momentum buffers; \<open>nlog_lik.backward(); optimizer.step()\<close> is a function
  \<open>step\<close> of that state, taken as a parameter (it is torch's automatic differentiation
  and SGD). The single test point is \<open>np.linspace(-30, 85, 1)\<close>, that is \<open>[-30]\<close>. An
  exception of \<open>gp_inference\<close> ends the loop.
\<close>

type_synonym theta = "real \<times> real \<times> real"

definition nlog_lik_at :: "vec \<Rightarrow> vec \<Rightarrow> theta \<Rightarrow> error + real" where
  "nlog_lik_at obs_x obs_t th =
     (let logl = fst th; logsigmaf = fst (snd th); logsigman = snd (snd th)
      in raising
           (gp_inference obs_x obs_t [- 30]
              (exp logl, exp logsigmaf, Scalar (exp logsigman)) 0)
           (\<lambda>res. Inr (- snd (snd res))))"

fun training_loop ::
  "('o \<times> theta \<Rightarrow> 'o \<times> theta) \<Rightarrow> vec \<Rightarrow> vec \<Rightarrow> nat \<Rightarrow> 'o \<times> theta \<Rightarrow> real list
     \<Rightarrow> error + (('o \<times> theta) \<times> real list)" where
  "training_loop step obs_x obs_t 0 st nlog_lik_steps = Inr (st, nlog_lik_steps)"
| "training_loop step obs_x obs_t (Suc k) st nlog_lik_steps =
     (case nlog_lik_at obs_x obs_t (snd st) of
        Inl e \<Rightarrow> Inl e
      | Inr nlog_lik \<Rightarrow>
          training_loop step obs_x obs_t k (step st) (nlog_lik_steps @ [nlog_lik]))"

definition run_training ::
  "('o \<times> theta \<Rightarrow> 'o \<times> theta) \<Rightarrow> vec \<Rightarrow> vec \<Rightarrow> nat \<Rightarrow> 'o \<times> theta
     \<Rightarrow> error + (('o \<times> theta) \<times> real list)" where
  \<comment> \<open>\<open>nlog_lik_steps = []\<close>, then the loop\<close>
  "run_training step obs_x obs_t steps st = training_loop step obs_x obs_t steps st []"

section \<open>Dirichlet transform of classification labels\<close>

definition obs_t_transf_var :: "real \<Rightarrow> mat \<Rightarrow> mat" where
  \<comment> \<open>\<open>torch.log((obs_t + alpha) ** (-1) + 1)\<close>, elementwise\<close>
  "obs_t_transf_var alpha obs_t = map (map (\<lambda>y. ln (inverse (y + alpha) + 1))) obs_t"

definition obs_t_transf_mean :: "real \<Rightarrow> mat \<Rightarrow> mat" where
  \<comment> \<open>\<open>torch.log(obs_t + alpha) - obs_t_transf_var / 2\<close>, elementwise\<close>
  "obs_t_transf_mean alpha obs_t =
     map2 (map2 (\<lambda>y v. ln (y + alpha) - v / 2)) obs_t (obs_t_transf_var alpha obs_t)"

definition column :: "nat \<Rightarrow> mat \<Rightarrow> vec" where
  \<comment> \<open>\<open>A[:, c]\<close>\<close>
  "column c A = map (\<lambda>r. r ! c) A"

definition class_inference ::
  "vec \<Rightarrow> mat \<Rightarrow> vec \<Rightarrow> real \<Rightarrow> real \<Rightarrow> real \<Rightarrow> real \<Rightarrow> nat \<Rightarrow> error + (vec \<times> mat \<times> real)" where
  \<comment> \<open>\<open>gp_inference(obs_x, obs_t_transf_mean[:, c], test_x,
        params + [obs_t_transf_var[:, c]], prior_mean)\<close> for the class \<open>c\<close>\<close>
  "class_inference obs_x obs_t test_x lengthscale variance alpha prior_mean c =
     gp_inference obs_x (column c (obs_t_transf_mean alpha obs_t)) test_x
       (lengthscale, variance, PerPoint (column c (obs_t_transf_var alpha obs_t))) prior_mean"

section \<open>Symmetric positive-definite matrices\<close>

definition quad_form :: "mat \<Rightarrow> vec \<Rightarrow> real" where
  "quad_form A x = (\<Sum>i<length A. \<Sum>j<length A. x ! i * A ! i ! j * x ! j)"

definition spd :: "mat \<Rightarrow> bool" where
  "spd A \<longleftrightarrow>
     is_square A \<and>
     (\<forall>i<length A. \<forall>j<length A. A ! i ! j = A ! j ! i) \<and>
     (\<forall>x. length x = length A \<and> (\<exists>i<length A. x ! i \<noteq> 0) \<longrightarrow> 0 < quad_form A x)"

definition lower_cholesky_factor :: "mat \<Rightarrow> mat \<Rightarrow> bool" where
  \<comment> \<open>\<open>L\<close> is lower triangular with a positive diagonal, and \<open>L L\<^sup>T = A\<close>\<close>
  "lower_cholesky_factor L A \<longleftrightarrow>
     length L = length A \<and>
     (\<forall>i<length A.
        length (L ! i) = length A \<and> 0 < L ! i ! i \<and>
        (\<forall>j<length A. (i < j \<longrightarrow> L ! i ! j = 0) \<and>
                        (\<Sum>m<length A. L ! i ! m * L ! j ! m) = A ! i ! j))"

section \<open>Overflow in the distance routine\<close>

text \<open>
  The real-number embedding of \<open>cdist\<close> cannot overflow; the float32 program can. The
  second embedding below keeps overflow and leaves rounding out: a value is a real
  number of magnitude at most the largest float32, an infinity, or NaN; an operation
  whose exact result lies beyond the largest float32 gives the infinity of its sign
  (the half unit in the last place that rounding to nearest still rounds down is left
  out with the rounding);
  \<open>inf - inf\<close> and \<open>0 * inf\<close> are NaN; \<open>clamp_min_\<close> and \<open>sqrt_\<close> pass a NaN through.
  The sums of \<open>sum(dim=-1)\<close> and of the matrix product are accumulated from the left.
\<close>

datatype f32 = Fin real | PInf | NInf | NaN

definition f32_max :: real where
  \<comment> \<open>the largest float32, \<open>(2 - 2^-23) * 2^127\<close>\<close>
  "f32_max = (2 ^ 24 - 1) * 2 ^ 104"

definition overflow :: "real \<Rightarrow> f32" where
  "overflow r = (if f32_max < r then PInf else if r < - f32_max then NInf else Fin r)"

fun f32_add :: "f32 \<Rightarrow> f32 \<Rightarrow> f32" where
  "f32_add NaN y = NaN"
| "f32_add x NaN = NaN"
| "f32_add PInf NInf = NaN"
| "f32_add NInf PInf = NaN"
| "f32_add PInf y = PInf"
| "f32_add x PInf = PInf"
| "f32_add NInf y = NInf"
| "f32_add x NInf = NInf"
| "f32_add (Fin a) (Fin b) = overflow (a + b)"

text \<open>\<open>alpha * v\<close> for the finite factor \<open>alpha = -2\<close> of \<open>addmm\<close>.\<close>

fun f32_scale :: "real \<Rightarrow> f32 \<Rightarrow> f32" where
  "f32_scale a NaN = NaN"
| "f32_scale a PInf = (if 0 < a then PInf else if a < 0 then NInf else NaN)"
| "f32_scale a NInf = (if 0 < a then NInf else if a < 0 then PInf else NaN)"
| "f32_scale a (Fin b) = overflow (a * b)"

fun f32_clamp_min :: "f32 \<Rightarrow> real \<Rightarrow> f32" where
  "f32_clamp_min NaN m = NaN"
| "f32_clamp_min PInf m = PInf"
| "f32_clamp_min NInf m = Fin m"
| "f32_clamp_min (Fin a) m = Fin (max a m)"

fun f32_sqrt :: "f32 \<Rightarrow> f32" where
  "f32_sqrt NaN = NaN"
| "f32_sqrt PInf = PInf"
| "f32_sqrt NInf = NaN"
| "f32_sqrt (Fin a) = (if a < 0 then NaN else Fin (sqrt a))"


definition f32_pow2_sum :: "vec \<Rightarrow> f32" where
  "f32_pow2_sum p = foldl f32_add (Fin 0) (map (\<lambda>c. overflow (c\<^sup>2)) p)"

definition f32_dot :: "vec \<Rightarrow> vec \<Rightarrow> f32" where
  "f32_dot a b = foldl f32_add (Fin 0) (map2 (\<lambda>c d. overflow (c * d)) a b)"

definition cdist_f32 :: "mat \<Rightarrow> mat \<Rightarrow> error + f32 list list" where
  \<comment> \<open>\<open>cdist\<close> on float32 inputs, step by step as in \<open>cdist\<close> above\<close>
  "cdist_f32 x1 x2 =
     (if list_all (\<lambda>a. list_all (\<lambda>b. length a = length b) x2) x1
      then Inr (map (\<lambda>a. map (\<lambda>b.
              f32_sqrt (f32_clamp_min
                (f32_add (f32_add (f32_pow2_sum b) (f32_scale (- 2) (f32_dot a b)))
                         (f32_pow2_sum a))
                clamp_floor)) x2) x1)
      else Inl SizeMismatch)"

section \<open>Properties of the distance routine\<close>

lemma clamp_floor_pos: "0 < clamp_floor"
  by (simp add: clamp_floor_def)

lemma cdist_width1:
  "cdist (unsqueeze_last x1) (unsqueeze_last x2) =
     Inr (map (\<lambda>a. map (\<lambda>b. sqrt (max ((b\<^sup>2 + (- 2) * (a * b)) + a\<^sup>2) clamp_floor)) x2) x1)"
  by (simp add: cdist_def unsqueeze_last_def list_all_iff dot_def pow2_sum_def comp_def)

lemma rbf_kernel_eq:
  "rbf_kernel x1 x2 l v =
     Inr (map (\<lambda>a. map (\<lambda>b. rbf_entry l v
            (sqrt (max ((b\<^sup>2 + (- 2) * (a * b)) + a\<^sup>2) clamp_floor))) x2) x1)"
  by (simp add: rbf_kernel_def cdist_width1 comp_def)

section \<open>Properties of the kernel\<close>

text \<open>
  Claim C3. For positive lengthscale and variance, \<open>rbf_kernel\<close> returns the N x M
  matrix whose entry (i, j) is \<open>variance * exp (- d\<^sup>2 / (2 * lengthscale\<^sup>2))\<close>, where
  \<open>d\<close> is entry (i, j) of the matrix that \<open>cdist\<close> returns for the two point sets, the
  Euclidean distance of the two points clamped from below.
\<close>
theorem rbf_kernel_entries:
  assumes "0 < lengthscale" and "0 < variance"
  shows "\<exists>K d. rbf_kernel x1 x2 lengthscale variance = Inr K \<and>
           cdist (unsqueeze_last x1) (unsqueeze_last x2) = Inr d \<and>
           length K = length x1 \<and>
           (\<forall>i<length x1. length (K ! i) = length x2 \<and>
              (\<forall>j<length x2.
                 d ! i ! j = sqrt (max ((x1 ! i - x2 ! j)\<^sup>2) (1 / 10 ^ 30)) \<and>
                 K ! i ! j = variance * exp (- (d ! i ! j)\<^sup>2 / (2 * lengthscale\<^sup>2))))"
proof -
  have sq: "(b::real)\<^sup>2 - 2 * (a * b) + a\<^sup>2 = (a - b)\<^sup>2" for a b
    by (simp add: power2_diff)
  show ?thesis
    using assms
    by (simp add: rbf_kernel_eq cdist_width1 rbf_entry_def clamp_floor_def sq)
qed

theorem rbf_kernel_entries_witness:
  "\<exists>K d. rbf_kernel [0] [5] 2 1 = Inr K \<and>
           cdist (unsqueeze_last [0]) (unsqueeze_last [5]) = Inr d \<and>
           length K = 1 \<and> length (K ! 0) = 1 \<and>
           d ! 0 ! 0 = sqrt (max ((0 - 5)\<^sup>2) (1 / 10 ^ 30)) \<and>
           K ! 0 ! 0 = 1 * exp (- (d ! 0 ! 0)\<^sup>2 / (2 * 2\<^sup>2))"
  using rbf_kernel_entries [of 2 1 "[0]" "[5]"] by simp

text \<open>
  Claim C5 says that the diagonal of the training covariance is the variance exactly.
  The distance of a point to itself is the clamp floor, not 0: with the lengthscale
  \<open>1e-16\<close> and the variance 1 the diagonal entry is \<open>exp (-50)\<close>.
\<close>

theorem rbf_kernel_diagonal_counterexample:
  "rbf_kernel [0] [0] (1 / 10 ^ 16) 1 = Inr [[exp (- 50)]] \<and> exp (- 50) < (1::real)"
  by (simp add: rbf_kernel_eq rbf_entry_def clamp_floor_def power2_eq_square)

section \<open>Properties of the noisy covariance\<close>

lemma eye_nth: "i < n \<Longrightarrow> j < n \<Longrightarrow> eye n ! i ! j = (if i = j then 1 else 0)"
  by (simp add: eye_def)

lemma eye_length: "length (eye n) = n" "i < n \<Longrightarrow> length (eye n ! i) = n"
  by (simp_all add: eye_def)

lemma noise_times_eye_Scalar:
  "noise_times_eye (Scalar s) n = Inr (map (\<lambda>i. map (\<lambda>j. if i = j then s else 0) [0..<n]) [0..<n])"
  by (simp add: noise_times_eye_def eye_def comp_def if_distrib cong: if_cong)

lemma noise_times_eye_PerPoint:
  assumes "length ns = n"
  shows "noise_times_eye (PerPoint ns) n =
           Inr (map (\<lambda>i. map (\<lambda>j. if i = j then ns ! j else 0) [0..<n]) [0..<n])"
proof -
  have "map2 (*) ns (map (\<lambda>j. if i = j then 1 else 0) [0..<n]) =
        map (\<lambda>j. if i = j then ns ! j else 0) [0..<n]" for i
    using assms by (auto intro!: nth_equalityI)
  then show ?thesis
    using assms by (simp add: noise_times_eye_def eye_def comp_def)
qed

lemma mat_add_nth:
  assumes "i < length A" "i < length B" "j < length (A ! i)" "j < length (B ! i)"
  shows "mat_add A B ! i ! j = A ! i ! j + B ! i ! j"
  using assms by (simp add: mat_add_def)

lemma mat_add_length: "length (mat_add A B) = min (length A) (length B)"
  "i < length A \<Longrightarrow> i < length B \<Longrightarrow> length (mat_add A B ! i) = min (length (A ! i)) (length (B ! i))"
  by (simp_all add: mat_add_def)

lemma noisy_cov_nth:
  assumes "length K = N" and "\<forall>r\<in>set K. length r = N"
  shows "(\<exists>K_y. noisy_cov K (Scalar s) N = Inr K_y \<and> length K_y = N \<and>
            (\<forall>i<N. length (K_y ! i) = N \<and>
               (\<forall>j<N. K_y ! i ! j = (if i = j then K ! i ! i + s else K ! i ! j)))) \<and>
         (length ns = N \<longrightarrow>
          (\<exists>K_y. noisy_cov K (PerPoint ns) N = Inr K_y \<and> length K_y = N \<and>
            (\<forall>i<N. length (K_y ! i) = N \<and>
               (\<forall>j<N. K_y ! i ! j = (if i = j then K ! i ! i + ns ! i else K ! i ! j)))))"
proof -
  have row: "length (K ! i) = N" if "i < N" for i
    using assms that by simp
  show ?thesis
    using assms(1) row
    by (simp add: noisy_cov_def noise_times_eye_Scalar noise_times_eye_PerPoint
        mat_add_length mat_add_nth)
qed

section \<open>Properties of the Dirichlet transform\<close>

text \<open>
  Claim C8. For one-hot labels and a positive \<open>alpha\<close>, the transformed variance of an
  entry \<open>y\<close> is \<open>ln (1 / (y + alpha) + 1)\<close>, which is positive, and the transformed mean
  is \<open>ln (y + alpha)\<close> minus half the transformed variance, entry by entry. The inference
  of class \<open>c\<close> is \<open>gp_inference\<close> on column \<open>c\<close> of the transformed means as the targets
  and column \<open>c\<close> of the transformed variances as the per-point noise.
\<close>

theorem dirichlet_transform:
  assumes "0 < alpha" and "i < length obs_t" and "c < length (obs_t ! i)"
    and "obs_t ! i ! c = 0 \<or> obs_t ! i ! c = 1"
  shows "obs_t_transf_var alpha obs_t ! i ! c = ln (1 / (obs_t ! i ! c + alpha) + 1) \<and>
         obs_t_transf_mean alpha obs_t ! i ! c =
           ln (obs_t ! i ! c + alpha) - obs_t_transf_var alpha obs_t ! i ! c / 2 \<and>
         0 < obs_t_transf_var alpha obs_t ! i ! c \<and>
         column c (obs_t_transf_mean alpha obs_t) ! i = obs_t_transf_mean alpha obs_t ! i ! c \<and>
         column c (obs_t_transf_var alpha obs_t) ! i = obs_t_transf_var alpha obs_t ! i ! c \<and>
         class_inference obs_x obs_t test_x lengthscale variance alpha prior_mean c =
           gp_inference obs_x (column c (obs_t_transf_mean alpha obs_t)) test_x
             (lengthscale, variance, PerPoint (column c (obs_t_transf_var alpha obs_t))) prior_mean"
proof -
  have pos: "0 < obs_t ! i ! c + alpha" using assms(1,4) by auto
  have v: "obs_t_transf_var alpha obs_t ! i ! c = ln (1 / (obs_t ! i ! c + alpha) + 1)"
    using assms(2,3) by (simp add: obs_t_transf_var_def inverse_eq_divide)
  have m: "obs_t_transf_mean alpha obs_t ! i ! c =
           ln (obs_t ! i ! c + alpha) - obs_t_transf_var alpha obs_t ! i ! c / 2"
    using assms(2,3) by (simp add: obs_t_transf_mean_def obs_t_transf_var_def)
  have "1 < 1 / (obs_t ! i ! c + alpha) + 1" using pos by simp
  then have vp: "0 < ln (1 / (obs_t ! i ! c + alpha) + 1)" by (rule ln_gt_zero)
  have c1: "column c (obs_t_transf_mean alpha obs_t) ! i = obs_t_transf_mean alpha obs_t ! i ! c"
    using assms(2) by (simp add: column_def obs_t_transf_mean_def obs_t_transf_var_def)
  have c2: "column c (obs_t_transf_var alpha obs_t) ! i = obs_t_transf_var alpha obs_t ! i ! c"
    using assms(2) by (simp add: column_def obs_t_transf_var_def)
  show ?thesis
    using v m vp c1 c2 by (simp add: class_inference_def)
qed

theorem dirichlet_transform_witness:
  "obs_t_transf_var (1 / 20) [[1, 0]] ! 0 ! 1 = ln (1 / (0 + 1 / 20) + 1) \<and>
   obs_t_transf_mean (1 / 20) [[1, 0]] ! 0 ! 1 =
     ln (0 + 1 / 20) - obs_t_transf_var (1 / 20) [[1, 0]] ! 0 ! 1 / 2 \<and>
   0 < obs_t_transf_var (1 / 20) [[1, 0]] ! 0 ! 1"
  using dirichlet_transform [of "1 / 20" 0 "[[1, 0]]" 1] by simp

section \<open>Correctness of the triangular solves\<close>

lemma dot_sum:
  "dot a b = (\<Sum>k<min (length a) (length b). a ! k * b ! k)"
proof -
  have "dot a b = (\<Sum>k = 0..<length (map2 (*) a b). map2 (*) a b ! k)"
    unfolding dot_def by (rule sum_list_sum_nth)
  also have "\<dots> = (\<Sum>k<min (length a) (length b). a ! k * b ! k)"
    by (simp add: atLeast0LessThan)
  finally show ?thesis .
qed

lemma dot_take:
  assumes "k \<le> length r" and "length z = k"
  shows "dot (take k r) z = (\<Sum>j<k. r ! j * z ! j)"
  using assms by (simp add: dot_sum)

lemma forward_subst_length [simp]: "length (forward_subst L b i) = i"
  by (induction i) (simp_all add: Let_def)

lemma forward_subst_take:
  "i \<le> n \<Longrightarrow> take i (forward_subst L b n) = forward_subst L b i"
proof (induction n)
  case 0
  then show ?case by simp
next
  case (Suc n)
  show ?case
  proof (cases "i = Suc n")
    case True
    then show ?thesis by (simp del: forward_subst.simps)
  next
    case False
    with Suc.prems have "i \<le> n" by simp
    then show ?thesis using Suc.IH by (simp add: Let_def)
  qed
qed

lemma forward_subst_nth_stable:
  assumes "k < i" and "i \<le> n"
  shows "forward_subst L b n ! k = forward_subst L b i ! k"
proof -
  have "forward_subst L b i ! k = take i (forward_subst L b n) ! k"
    using assms by (simp add: forward_subst_take)
  then show ?thesis using assms by simp
qed

lemma forward_subst_nth:
  assumes "k < n" and "k \<le> length (L ! k)"
  shows "forward_subst L b n ! k =
           (b ! k - (\<Sum>j<k. L ! k ! j * forward_subst L b n ! j)) / L ! k ! k"
proof -
  have "forward_subst L b n ! k = forward_subst L b (Suc k) ! k"
    using assms by (intro forward_subst_nth_stable) simp_all
  also have "\<dots> = (b ! k - dot (take k (L ! k)) (forward_subst L b k)) / L ! k ! k"
    by (simp add: Let_def nth_append)
  also have "dot (take k (L ! k)) (forward_subst L b k)
               = (\<Sum>j<k. L ! k ! j * forward_subst L b k ! j)"
    using assms by (simp add: dot_take)
  also have "\<dots> = (\<Sum>j<k. L ! k ! j * forward_subst L b n ! j)"
    using assms by (intro sum.cong refl) (simp add: forward_subst_nth_stable [of _ k n])
  finally show ?thesis .
qed

lemma forward_subst_solves:
  assumes "k < n" and "k \<le> length (L ! k)" and "L ! k ! k \<noteq> 0"
  shows "(\<Sum>j<Suc k. L ! k ! j * forward_subst L b n ! j) = b ! k"
  using assms by (simp add: forward_subst_nth [OF assms(1,2)])

lemma backward_subst_length [simp]: "length (backward_subst U b n k) = k"
  by (induction k) (simp_all add: Let_def)

lemma backward_subst_drop:
  "k \<le> m \<Longrightarrow> drop (m - k) (backward_subst U b n m) = backward_subst U b n k"
proof (induction m)
  case 0
  then show ?case by simp
next
  case (Suc m)
  show ?case
  proof (cases "k = Suc m")
    case True
    then show ?thesis by (simp del: backward_subst.simps)
  next
    case False
    with Suc.prems have le: "k \<le> m" by simp
    then have "Suc m - k = Suc (m - k)" by simp
    then show ?thesis using Suc.IH [OF le] by (simp add: Let_def)
  qed
qed

lemma dot_drop:
  assumes "length r = n" and "length x = n" and "i \<le> n"
  shows "dot (drop i r) (drop i x) = (\<Sum>j = i..<n. r ! j * x ! j)"
proof -
  have "dot (drop i r) (drop i x) = (\<Sum>k<n - i. r ! (i + k) * x ! (i + k))"
    using assms by (simp add: dot_sum)
  also have "\<dots> = (\<Sum>j = i..<n. r ! j * x ! j)"
    using assms(3)
    by (simp add: sum.atLeastLessThan_shift_0 [of _ i n] lessThan_atLeast0 comp_def)
  finally show ?thesis .
qed

lemma backward_subst_nth:
  assumes "i < n" and "length (U ! i) = n"
  shows "backward_subst U b n n ! i =
           (b ! i - (\<Sum>j = Suc i..<n. U ! i ! j * backward_subst U b n n ! j)) / U ! i ! i"
proof -
  let ?x = "backward_subst U b n n"
  define k where "k = n - Suc i"
  have k: "Suc k \<le> n" "n - Suc k = i" "n - k = Suc i"
    using assms(1) by (simp_all add: k_def)
  have tl: "backward_subst U b n k = drop (Suc i) ?x"
    using backward_subst_drop [of k n U b n] k by simp
  have "drop i ?x = backward_subst U b n (Suc k)"
    using backward_subst_drop [of "Suc k" n U b n] k by simp
  then have "?x ! i = hd (backward_subst U b n (Suc k))"
    using assms(1) by (metis backward_subst_length hd_drop_conv_nth)
  also have "\<dots> = (b ! i - dot (drop (Suc i) (U ! i)) (backward_subst U b n k)) / U ! i ! i"
    using k by (simp add: Let_def)
  also have "dot (drop (Suc i) (U ! i)) (backward_subst U b n k)
               = (\<Sum>j = Suc i..<n. U ! i ! j * ?x ! j)"
    unfolding tl using assms by (intro dot_drop) simp_all
  finally show ?thesis .
qed

lemma backward_subst_solves:
  assumes "i < n" and "length (U ! i) = n" and "U ! i ! i \<noteq> 0"
  shows "(\<Sum>j = i..<n. U ! i ! j * backward_subst U b n n ! j) = b ! i"
proof -
  have "(\<Sum>j = i..<n. U ! i ! j * backward_subst U b n n ! j)
          = U ! i ! i * backward_subst U b n n ! i
            + (\<Sum>j = Suc i..<n. U ! i ! j * backward_subst U b n n ! j)"
    using assms(1) by (simp add: sum.atLeast_Suc_lessThan)
  then show ?thesis
    using assms(3) by (simp add: backward_subst_nth [OF assms(1,2)])
qed

section \<open>Correctness of the Cholesky factorisation\<close>

lemma chol_rows_Suc:
  assumes "chol_rows A n (Suc i) = Some Ls'"
  shows "\<exists>Ls. chol_rows A n i = Some Ls \<and>
           0 < chol_pivot A Ls i \<and>
           Ls' = Ls @ [chol_row A Ls n i]"
  using assms
  by (auto split: option.splits if_splits)

lemma chol_rows_length:
  "chol_rows A n i = Some Ls \<Longrightarrow> length Ls = i"
proof (induction i arbitrary: Ls)
  case 0
  then show ?case by simp
next
  case (Suc i)
  from chol_rows_Suc [OF Suc.prems] obtain Ls0 where
    "chol_rows A n i = Some Ls0" "Ls = Ls0 @ [chol_row A Ls0 n i]" by blast
  then show ?case using Suc.IH by simp
qed

lemma chol_rows_take:
  "chol_rows A n i = Some Ls \<Longrightarrow> k \<le> i \<Longrightarrow> chol_rows A n k = Some (take k Ls)"
proof (induction i arbitrary: Ls)
  case 0
  then show ?case by simp
next
  case (Suc i)
  from chol_rows_Suc [OF Suc.prems(1)] obtain Ls0 where
    L0: "chol_rows A n i = Some Ls0" "Ls = Ls0 @ [chol_row A Ls0 n i]" by blast
  have len: "length Ls0 = i" using L0(1) by (rule chol_rows_length)
  show ?case
  proof (cases "k = Suc i")
    case True
    then show ?thesis using Suc.prems(1) L0(2) len by simp
  next
    case False
    with Suc.prems(2) have "k \<le> i" by simp
    then show ?thesis using Suc.IH [OF L0(1)] L0(2) len by simp
  qed
qed

lemma chol_row_length: "i < n \<Longrightarrow> length (chol_row A Ls n i) = n"
  by (simp add: chol_row_def chol_off_def)

lemma chol_row_nth:
  "j < i \<Longrightarrow> chol_row A Ls n i ! j = chol_off A Ls i ! j"
  "chol_row A Ls n i ! i = sqrt (chol_pivot A Ls i)"
  "i < j \<Longrightarrow> j < n \<Longrightarrow> chol_row A Ls n i ! j = 0"
  by (simp_all add: chol_row_def chol_off_def nth_append)

text \<open>The row \<open>k\<close> of a successful factorisation.\<close>

lemma chol_rows_nth:
  assumes "chol_rows A n i = Some Ls" and "k < i"
  shows "chol_rows A n k = Some (take k Ls) \<and>
         0 < chol_pivot A (take k Ls) k \<and>
         Ls ! k = chol_row A (take k Ls) n k"
proof -
  have S: "chol_rows A n (Suc k) = Some (take (Suc k) Ls)"
    using assms by (intro chol_rows_take [OF assms(1)]) simp
  from chol_rows_Suc [OF S] obtain Ls0 where
    L0: "chol_rows A n k = Some Ls0"
      "0 < chol_pivot A Ls0 k"
      "take (Suc k) Ls = Ls0 @ [chol_row A Ls0 n k]" by blast
  have len: "length Ls0 = k" using L0(1) by (rule chol_rows_length)
  have lenL: "length Ls = i" using assms(1) by (rule chol_rows_length)
  have "take k (take (Suc k) Ls) = Ls0" using L0(3) len by simp
  then have eq: "take k Ls = Ls0" by (simp add: min_def)
  have "take (Suc k) Ls ! k = chol_row A Ls0 n k"
    using L0(3) len by (simp add: nth_append)
  then have "Ls ! k = chol_row A Ls0 n k" by simp
  then show ?thesis using L0 eq by simp
qed

lemma chol_rows_row_length:
  assumes "chol_rows A n i = Some Ls" and "k < i" and "i \<le> n"
  shows "length (Ls ! k) = n"
  using chol_rows_nth [OF assms(1,2)] assms(2,3) by (simp add: chol_row_length)

lemma chol_rows_diag_pos:
  assumes "chol_rows A n i = Some Ls" and "k < i"
  shows "0 < Ls ! k ! k"
  using chol_rows_nth [OF assms] by (simp add: chol_row_nth(2))

lemma chol_rows_upper_zero:
  assumes "chol_rows A n i = Some Ls" and "k < i" and "k < j" and "j < n"
  shows "Ls ! k ! j = 0"
  using chol_rows_nth [OF assms(1,2)] assms(3,4) by (simp add: chol_row_nth(3))

lemma forward_subst_cong:
  assumes "\<And>j. j < n \<Longrightarrow> L ! j = L' ! j" and "\<And>j. j < n \<Longrightarrow> b ! j = b' ! j"
  shows "forward_subst L b n = forward_subst L' b' n"
  using assms by (induction n) (simp_all add: Let_def)

lemma chol_rows_factor_off:
  assumes "chol_rows A n i = Some Ls" and "k < i" and "i \<le> n" and "j < k"
    and "k \<le> length (A ! k)"
  shows "(\<Sum>m<Suc j. Ls ! j ! m * Ls ! k ! m) = A ! k ! j"
proof -
  let ?L = "take k Ls"
  let ?b = "take k (A ! k)"
  have jn: "j < i" using assms(2,4) by simp
  have row: "Ls ! k = chol_row A ?L n k"
    using chol_rows_nth [OF assms(1,2)] by simp
  have Lj: "?L ! j = Ls ! j" using assms(4) by simp
  have lenj: "length (Ls ! j) = n"
    using chol_rows_row_length [OF assms(1) jn assms(3)] .
  have nz: "Ls ! j ! j \<noteq> 0"
    using chol_rows_diag_pos [OF assms(1) jn] by simp
  have "(\<Sum>m<Suc j. ?L ! j ! m * forward_subst ?L ?b k ! m) = ?b ! j"
    using assms(2,3,4) lenj nz by (intro forward_subst_solves) (simp_all add: Lj)
  moreover have "Ls ! k ! m = forward_subst ?L ?b k ! m" if "m < Suc j" for m
    using that assms(4) by (simp add: row chol_row_nth(1) chol_off_def)
  ultimately have "(\<Sum>m<Suc j. Ls ! j ! m * Ls ! k ! m) = ?b ! j"
    by (simp add: Lj)
  then show ?thesis using assms(4) by simp
qed

lemma chol_rows_factor_diag:
  assumes "chol_rows A n i = Some Ls" and "k < i"
  shows "(\<Sum>m<Suc k. Ls ! k ! m * Ls ! k ! m) = A ! k ! k"
proof -
  let ?L = "take k Ls"
  have row: "Ls ! k = chol_row A ?L n k" and pos: "0 < chol_pivot A ?L k"
    using chol_rows_nth [OF assms(1,2)] by simp_all
  have len: "length (chol_off A ?L k) = k" by (simp add: chol_off_def)
  have "(\<Sum>m<k. Ls ! k ! m * Ls ! k ! m) = (\<Sum>m<k. chol_off A ?L k ! m * chol_off A ?L k ! m)"
    by (intro sum.cong refl) (simp add: row chol_row_nth(1))
  also have "\<dots> = dot (chol_off A ?L k) (chol_off A ?L k)"
    by (simp add: dot_sum len)
  finally have off: "(\<Sum>m<k. Ls ! k ! m * Ls ! k ! m) = dot (chol_off A ?L k) (chol_off A ?L k)" .
  have "Ls ! k ! k * Ls ! k ! k = chol_pivot A ?L k"
    using pos by (simp add: row chol_row_nth(2))
  then show ?thesis
    using off by (simp add: chol_pivot_def)
qed

lemma chol_rows_factor:
  assumes "chol_rows A n i = Some Ls" and "k < i" and "i \<le> n" and "j \<le> k"
    and "k \<le> length (A ! k)"
  shows "(\<Sum>m<Suc j. Ls ! k ! m * Ls ! j ! m) = A ! k ! j"
proof (cases "j = k")
  case True
  then show ?thesis using chol_rows_factor_diag [OF assms(1,2)] by simp
next
  case False
  with assms(4) have "j < k" by simp
  from chol_rows_factor_off [OF assms(1,2,3) this assms(5)]
  show ?thesis by (simp add: mult.commute)
qed

section \<open>Cholesky factorisation and positive definiteness\<close>

lemma gram_quad:
  fixes x :: "nat \<Rightarrow> real" and l :: "nat \<Rightarrow> nat \<Rightarrow> real"
  shows "(\<Sum>i<n. \<Sum>j<n. x i * (\<Sum>m<n. l i m * l j m) * x j)
           = (\<Sum>m<n. (\<Sum>i<n. x i * l i m) * (\<Sum>i<n. x i * l i m))"
proof -
  have "(\<Sum>i<n. \<Sum>j<n. x i * (\<Sum>m<n. l i m * l j m) * x j)
          = (\<Sum>i<n. \<Sum>j<n. \<Sum>m<n. (x i * l i m) * (x j * l j m))"
    by (simp add: sum_distrib_left sum_distrib_right mult_ac)
  also have "\<dots> = (\<Sum>i<n. \<Sum>m<n. \<Sum>j<n. (x i * l i m) * (x j * l j m))"
    by (rule sum.cong [OF refl]) (rule sum.swap)
  also have "\<dots> = (\<Sum>m<n. \<Sum>i<n. \<Sum>j<n. (x i * l i m) * (x j * l j m))"
    by (rule sum.swap)
  also have "\<dots> = (\<Sum>m<n. (\<Sum>i<n. x i * l i m) * (\<Sum>i<n. x i * l i m))"
    by (simp add: sum_product)
  finally show ?thesis .
qed

lemma sum_lower_cut:
  fixes f :: "nat \<Rightarrow> real"
  assumes "k \<le> n" and "\<And>m. k \<le> m \<Longrightarrow> m < n \<Longrightarrow> f m = 0"
  shows "(\<Sum>m<n. f m) = (\<Sum>m<k. f m)"
  using assms by (intro sum.mono_neutral_right) auto


lemma cholesky_lower_factor:
  assumes "cholesky A = Inr L"
    and sym: "\<And>i j. i < length A \<Longrightarrow> j < length A \<Longrightarrow> A ! i ! j = A ! j ! i"
  shows "lower_cholesky_factor L A"
proof -
  let ?n = "length A"
  have sq: "is_square A" and ch: "chol_rows A ?n ?n = Some L"
    using assms(1) by (auto simp: cholesky_def split: if_splits option.splits)
  have rowA: "length (A ! k) = ?n" if "k < ?n" for k
    using sq that by (simp add: is_square_def list_all_length)
  have lenL: "length L = ?n" using ch by (rule chol_rows_length)
  have ent: "(\<Sum>m<?n. L ! i ! m * L ! j ! m) = A ! i ! j" if "j \<le> i" "i < ?n" for i j
  proof -
    have "(\<Sum>m<?n. L ! i ! m * L ! j ! m) = (\<Sum>m<Suc j. L ! i ! m * L ! j ! m)"
      using that chol_rows_upper_zero [OF ch, of j] by (intro sum_lower_cut) auto
    also have "\<dots> = A ! i ! j"
      using that rowA [of i] by (intro chol_rows_factor [OF ch]) simp_all
    finally show ?thesis .
  qed
  have ent': "(\<Sum>m<?n. L ! i ! m * L ! j ! m) = A ! i ! j" if "i < ?n" "j < ?n" for i j
  proof (cases "j \<le> i")
    case True
    then show ?thesis using ent that by simp
  next
    case False
    then have "(\<Sum>m<?n. L ! j ! m * L ! i ! m) = A ! j ! i"
      using ent [of i j] that by simp
    then show ?thesis using sym [OF that] by (simp add: mult.commute)
  qed
  show ?thesis
    unfolding lower_cholesky_factor_def
    using lenL ent' chol_rows_row_length [OF ch] chol_rows_diag_pos [OF ch]
      chol_rows_upper_zero [OF ch]
    by auto
qed



lemma bordered_quad:
  fixes a l :: "nat \<Rightarrow> nat \<Rightarrow> real" and y r :: "nat \<Rightarrow> real"
  assumes block: "\<And>j k. j < i \<Longrightarrow> k < i \<Longrightarrow> a j k = (\<Sum>m<i. l j m * l k m)"
    and border: "\<And>k. k < i \<Longrightarrow> a i k = (\<Sum>m<i. l k m * r m)"
    and ysol: "\<And>m. m < i \<Longrightarrow> (\<Sum>j<i. y j * l j m) = r m"
  shows "(\<Sum>j<i. \<Sum>k<i. y j * a j k * y k) - 2 * (\<Sum>k<i. a i k * y k) + a i i
           = a i i - (\<Sum>m<i. r m * r m)"
proof -
  have "(\<Sum>j<i. \<Sum>k<i. y j * a j k * y k)
          = (\<Sum>j<i. \<Sum>k<i. y j * (\<Sum>m<i. l j m * l k m) * y k)"
    using block by (intro sum.cong refl) simp
  also have "\<dots> = (\<Sum>m<i. (\<Sum>j<i. y j * l j m) * (\<Sum>j<i. y j * l j m))"
    by (rule gram_quad)
  also have "\<dots> = (\<Sum>m<i. r m * r m)"
    using ysol by (intro sum.cong refl) simp
  finally have Q: "(\<Sum>j<i. \<Sum>k<i. y j * a j k * y k) = (\<Sum>m<i. r m * r m)" .
  have "(\<Sum>k<i. a i k * y k) = (\<Sum>k<i. \<Sum>m<i. r m * (y k * l k m))"
  proof (intro sum.cong refl)
    fix k assume "k \<in> {..<i}"
    then have "a i k * y k = (\<Sum>m<i. l k m * r m) * y k" using border by simp
    also have "\<dots> = (\<Sum>m<i. l k m * r m * y k)" by (rule sum_distrib_right)
    also have "\<dots> = (\<Sum>m<i. r m * (y k * l k m))"
      by (intro sum.cong refl) (simp add: mult_ac)
    finally show "a i k * y k = (\<Sum>m<i. r m * (y k * l k m))" .
  qed
  also have "\<dots> = (\<Sum>m<i. \<Sum>k<i. r m * (y k * l k m))"
    by (rule sum.swap)
  also have "\<dots> = (\<Sum>m<i. r m * (\<Sum>k<i. y k * l k m))"
    by (simp add: sum_distrib_left)
  also have "\<dots> = (\<Sum>m<i. r m * r m)"
    using ysol by (intro sum.cong refl) simp
  finally have S: "(\<Sum>k<i. a i k * y k) = (\<Sum>m<i. r m * r m)" .
  show ?thesis by (simp add: Q S)
qed

lemma bordered_expand:
  fixes a :: "nat \<Rightarrow> nat \<Rightarrow> real" and x :: "nat \<Rightarrow> real"
  assumes sym: "\<And>k. k < i \<Longrightarrow> a k i = a i k" and xi: "x i = - 1"
  shows "(\<Sum>j<Suc i. \<Sum>k<Suc i. x j * a j k * x k)
           = (\<Sum>j<i. \<Sum>k<i. x j * a j k * x k) - 2 * (\<Sum>k<i. a i k * x k) + a i i"
proof -
  have "(\<Sum>j<i. x j * a j i) = (\<Sum>k<i. a i k * x k)"
    using sym by (intro sum.cong refl) (simp add: mult.commute)
  then have col: "(\<Sum>j<i. x j * a j i * x i) = - (\<Sum>k<i. a i k * x k)"
    by (simp add: xi sum_negf)
  have row: "(\<Sum>k<i. x i * a i k * x k) = - (\<Sum>k<i. a i k * x k)"
    by (simp add: xi sum_negf)
  have "(\<Sum>j<Suc i. \<Sum>k<Suc i. x j * a j k * x k)
          = (\<Sum>j<i. (\<Sum>k<i. x j * a j k * x k) + x j * a j i * x i)
            + ((\<Sum>k<i. x i * a i k * x k) + x i * a i i * x i)"
    by simp
  also have "\<dots> = (\<Sum>j<i. \<Sum>k<i. x j * a j k * x k) + (\<Sum>j<i. x j * a j i * x i)
            + ((\<Sum>k<i. x i * a i k * x k) + x i * a i i * x i)"
    by (simp only: sum.distrib)
  also have "\<dots> = (\<Sum>j<i. \<Sum>k<i. x j * a j k * x k) - 2 * (\<Sum>k<i. a i k * x k) + a i i"
    unfolding col row by (simp add: xi)
  finally show ?thesis .
qed

lemma spd_pivot_pos:
  assumes S: "spd A" and ch: "chol_rows A (length A) i = Some Ls" and i: "i < length A"
  shows "0 < chol_pivot A Ls i"
proof -
  let ?n = "length A"
  define r where "r = chol_off A Ls i"
  define U where "U = map (\<lambda>m. map (\<lambda>j. Ls ! j ! m) [0..<i]) [0..<i]"
  define y where "y = backward_subst U r i i"
  define x where "x = y @ [- 1] @ replicate (?n - Suc i) 0"
  have rowA: "length (A ! k) = ?n" if "k < ?n" for k
    using S that by (simp add: spd_def is_square_def list_all_length)
  have sym: "A ! j ! k = A ! k ! j" if "j < ?n" "k < ?n" for j k
    using S that by (simp add: spd_def)
  have pd: "0 < quad_form A v" if "length v = ?n" "\<exists>i<?n. v ! i \<noteq> 0" for v
    using S that by (simp add: spd_def)
  have ile: "i \<le> ?n" using i by simp
  have rowL: "length (Ls ! j) = ?n" if "j < i" for j
    using chol_rows_row_length [OF ch that ile] .
  have dpos: "0 < Ls ! j ! j" if "j < i" for j
    using chol_rows_diag_pos [OF ch that] .
  have up0: "Ls ! j ! m = 0" if "j < i" "j < m" "m < ?n" for j m
    using chol_rows_upper_zero [OF ch that] .
  have lenr: "length r = i" by (simp add: r_def chol_off_def)
  have leny: "length y = i" by (simp add: y_def)
  have lenx: "length x = ?n" using i by (simp add: x_def leny)
  have xlo: "x ! j = y ! j" if "j < i" for j
    using that by (simp add: x_def nth_append leny)
  have xi: "x ! i = - 1" by (simp add: x_def nth_append leny)
  have xhi: "x ! j = 0" if "i < j" "j < ?n" for j
    using that by (simp add: x_def nth_append leny nth_Cons')
  have ysol: "(\<Sum>j<i. y ! j * Ls ! j ! m) = r ! m" if "m < i" for m
  proof -
    have Um: "U ! m = map (\<lambda>j. Ls ! j ! m) [0..<i]" using that by (simp add: U_def)
    have "(\<Sum>j = m..<i. U ! m ! j * backward_subst U r i i ! j) = r ! m"
      using that dpos [OF that] by (intro backward_subst_solves) (simp_all add: Um)
    then have "(\<Sum>j = m..<i. y ! j * Ls ! j ! m) = r ! m"
      by (simp add: Um y_def mult.commute)
    moreover have "(\<Sum>j<i. y ! j * Ls ! j ! m) = (\<Sum>j = m..<i. y ! j * Ls ! j ! m)"
    proof (rule sum.mono_neutral_right)
      show "\<forall>j\<in>{..<i} - {m..<i}. y ! j * Ls ! j ! m = 0"
        using that i up0 by auto
    qed auto
    ultimately show ?thesis by simp
  qed
  have border: "A ! i ! k = (\<Sum>m<i. Ls ! k ! m * r ! m)" if "k < i" for k
  proof -
    have "(\<Sum>m<Suc k. Ls ! k ! m * forward_subst Ls (take i (A ! i)) i ! m)
            = take i (A ! i) ! k"
      using that rowL [OF that] dpos [OF that] i by (intro forward_subst_solves) simp_all
    then have "(\<Sum>m<Suc k. Ls ! k ! m * r ! m) = A ! i ! k"
      using that by (simp add: r_def chol_off_def)
    moreover have "(\<Sum>m<i. Ls ! k ! m * r ! m) = (\<Sum>m<Suc k. Ls ! k ! m * r ! m)"
      using that i up0 [OF that] by (intro sum_lower_cut) auto
    ultimately show ?thesis by simp
  qed
  have block0: "A ! j ! k = (\<Sum>m<i. Ls ! j ! m * Ls ! k ! m)" if "k \<le> j" "j < i" for j k
  proof -
    have kj: "k < i" using that by simp
    have "(\<Sum>m<Suc k. Ls ! j ! m * Ls ! k ! m) = A ! j ! k"
      using that i rowA [of j] by (intro chol_rows_factor [OF ch]) simp_all
    moreover have "(\<Sum>m<i. Ls ! j ! m * Ls ! k ! m) = (\<Sum>m<Suc k. Ls ! j ! m * Ls ! k ! m)"
      using that i up0 [OF kj] by (intro sum_lower_cut) auto
    ultimately show ?thesis by simp
  qed
  have block: "A ! j ! k = (\<Sum>m<i. Ls ! j ! m * Ls ! k ! m)" if "j < i" "k < i" for j k
  proof (cases "k \<le> j")
    case True
    then show ?thesis using block0 that by simp
  next
    case False
    then have "A ! k ! j = (\<Sum>m<i. Ls ! k ! m * Ls ! j ! m)"
      using block0 [of j k] that by simp
    moreover have "A ! j ! k = A ! k ! j" using sym that i by simp
    ultimately show ?thesis by (simp add: mult.commute)
  qed
  have inner: "(\<Sum>k<?n. x ! j * A ! j ! k * x ! k) = (\<Sum>k<Suc i. x ! j * A ! j ! k * x ! k)" for j
    using i xhi by (intro sum_lower_cut) auto
  have "quad_form A x = (\<Sum>j<?n. \<Sum>k<Suc i. x ! j * A ! j ! k * x ! k)"
    unfolding quad_form_def by (simp only: inner)
  also have "\<dots> = (\<Sum>j<Suc i. \<Sum>k<Suc i. x ! j * A ! j ! k * x ! k)"
    using i xhi by (intro sum_lower_cut) auto
  also have "\<dots> = (\<Sum>j<i. \<Sum>k<i. x ! j * A ! j ! k * x ! k)
                    - 2 * (\<Sum>k<i. A ! i ! k * x ! k) + A ! i ! i"
    using sym i xi by (intro bordered_expand) simp_all
  also have "\<dots> = (\<Sum>j<i. \<Sum>k<i. y ! j * A ! j ! k * y ! k)
                    - 2 * (\<Sum>k<i. A ! i ! k * y ! k) + A ! i ! i"
    by (simp add: xlo)
  also have "\<dots> = A ! i ! i - (\<Sum>m<i. r ! m * r ! m)"
    using block border ysol by (intro bordered_quad) simp_all
  also have "\<dots> = chol_pivot A Ls i"
    by (simp add: chol_pivot_def r_def [symmetric] dot_sum lenr)
  finally have "quad_form A x = chol_pivot A Ls i" .
  moreover have "0 < quad_form A x"
    using lenx i xi by (intro pd) auto
  ultimately show ?thesis by simp
qed

lemma spd_chol_rows:
  assumes "spd A" and "i \<le> length A"
  shows "\<exists>Ls. chol_rows A (length A) i = Some Ls"
  using assms(2)
proof (induction i)
  case 0
  then show ?case by simp
next
  case (Suc i)
  then obtain Ls where Ls: "chol_rows A (length A) i = Some Ls" by auto
  have "0 < chol_pivot A Ls i"
    using assms(1) Ls Suc.prems by (intro spd_pivot_pos) simp_all
  then show ?case using Ls by simp
qed

lemma spd_cholesky:
  assumes "spd A"
  shows "\<exists>L. cholesky A = Inr L"
proof -
  have "is_square A" using assms by (simp add: spd_def)
  moreover obtain Ls where "chol_rows A (length A) (length A) = Some Ls"
    using spd_chol_rows [OF assms, of "length A"] by auto
  ultimately show ?thesis by (simp add: cholesky_def)
qed

section \<open>The triangular solver\<close>

lemma mat_t_length [simp]: "length (mat_t n A) = n"
  by (simp add: mat_t_def)

lemma mat_t_nth: "j < n \<Longrightarrow> mat_t n A ! j = map (\<lambda>r. r ! j) A"
  by (simp add: mat_t_def)

lemma mat_t_nth_nth: "j < n \<Longrightarrow> i < length A \<Longrightarrow> mat_t n A ! j ! i = A ! i ! j"
  by (simp add: mat_t_def)

lemma is_square_mat_t: "is_square (mat_t (length A) A)"
  by (simp add: is_square_def list_all_length mat_t_nth)

lemma trtrs_width:
  assumes "\<forall>r\<in>set b. length r = p"
  shows "(if b = [] then 0 else length (hd b)) = (if b = [] then 0 else p)"
  using assms by (cases b) simp_all

lemma trtrs_total:
  assumes "is_square A" and "\<forall>i<length A. A ! i ! i \<noteq> 0"
    and "length b = length A" and "\<forall>r\<in>set b. length r = p"
  shows "\<exists>X. trtrs b A upper = Inr X \<and> length X = length A \<and> (\<forall>r\<in>set X. length r = p)"
proof (cases "b = []")
  case True
  then have "length A = 0" using assms(3) by simp
  then have "A = []" by simp
  then show ?thesis using True by (simp add: trtrs_def is_square_def mat_t_def)
next
  case False
  have w: "length (hd b) = p" using assms(4) False by (cases b) simp_all
  have all: "list_all (\<lambda>r. length r = p) b" using assms(4) by (simp add: list_all_iff)
  have nz: "\<not> list_ex (\<lambda>i. A ! i ! i = 0) [0..<length A]"
    using assms(2) by (auto simp: list_ex_iff)
  have "trtrs b A upper =
          Inr (mat_t (length A) (map (\<lambda>c. if upper then backward_subst A c (length A) (length A)
                                         else forward_subst A c (length A)) (mat_t p b)))"
    unfolding trtrs_def Let_def using assms(1,3) False w all nz by simp
  moreover have "\<forall>r\<in>set (mat_t (length A) M). length r = length M" for M :: mat
    by (simp add: mat_t_def)
  ultimately show ?thesis by simp
qed

lemma trtrs_Inr:
  assumes "trtrs b A upper = Inr X"
  shows "is_square A \<and> length b = length A \<and> (\<forall>i<length A. A ! i ! i \<noteq> 0) \<and>
         X = mat_t (length A) (map (\<lambda>c. if upper then backward_subst A c (length A) (length A)
                                         else forward_subst A c (length A))
                                 (mat_t (if b = [] then 0 else length (hd b)) b))"
proof -
  have nz: "list_ex (\<lambda>i. A ! i ! i = 0) [0..<length A] \<longleftrightarrow> (\<exists>i<length A. A ! i ! i = 0)"
    by (auto simp: list_ex_iff)
  show ?thesis
    using assms unfolding trtrs_def Let_def nz
    by (simp split: if_splits)
qed

lemma trtrs_unsqueeze:
  assumes "trtrs (unsqueeze_last t) A upper = Inr X"
  shows "X = unsqueeze_last (if upper then backward_subst A t (length A) (length A)
                             else forward_subst A t (length A))"
proof (cases "t = []")
  case True
  then have "length A = 0"
    using trtrs_Inr [OF assms] by (simp add: unsqueeze_last_def)
  then show ?thesis
    using trtrs_Inr [OF assms] by (simp add: unsqueeze_last_def mat_t_def)
next
  case False
  let ?s = "if upper then backward_subst A t (length A) (length A)
            else forward_subst A t (length A)"
  have hd1: "length (hd (unsqueeze_last t)) = 1" "unsqueeze_last t \<noteq> []"
    using False by (cases t; simp add: unsqueeze_last_def)+
  have cols: "mat_t 1 (unsqueeze_last t) = [t]"
    by (simp add: mat_t_def unsqueeze_last_def comp_def)
  have X: "X = mat_t (length A) [?s]"
    using trtrs_Inr [OF assms] hd1 cols by (simp split: if_splits)
  have len: "length ?s = length A" by simp
  have "mat_t (length A) [?s] = map (\<lambda>v. [v]) ?s"
    unfolding mat_t_def using len by (intro nth_equalityI) simp_all
  then show ?thesis using X by (simp add: unsqueeze_last_def)
qed

section \<open>The steps of GP inference\<close>

lemma raising_Inr_iff: "raising r f = Inr y \<longleftrightarrow> (\<exists>x. r = Inr x \<and> f x = Inr y)"
  by (cases r) (simp_all add: raising_def)

lemma raising_Inr [simp]: "raising (Inr x) f = f x"
  by (simp add: raising_def)

lemma raising_Inl [simp]: "raising (Inl e) f = Inl e"
  by (simp add: raising_def)

lemma cholesky_shape:
  assumes "cholesky A = Inr L"
  shows "is_square A \<and> length L = length A \<and>
         (\<forall>i<length A. length (L ! i) = length A \<and> 0 < L ! i ! i)"
proof -
  have sq: "is_square A" and ch: "chol_rows A (length A) (length A) = Some L"
    using assms by (auto simp: cholesky_def split: if_splits option.splits)
  show ?thesis
    using sq chol_rows_length [OF ch] chol_rows_row_length [OF ch] chol_rows_diag_pos [OF ch]
    by simp
qed

lemma cholesky_Inl:
  assumes "cholesky A = Inl e" and "is_square A"
  shows "e = CholeskyFailed"
  using assms by (auto simp: cholesky_def split: if_splits option.splits)

lemma rbf_kernel_shape:
  assumes "rbf_kernel x1 x2 l v = Inr K"
  shows "length K = length x1 \<and> (\<forall>r\<in>set K. length r = length x2)"
  using assms by (auto simp: rbf_kernel_eq)

lemma rbf_kernel_total: "\<exists>K. rbf_kernel x1 x2 l v = Inr K"
  by (simp add: rbf_kernel_eq)

lemma rbf_kernel_sym:
  assumes "rbf_kernel x x l v = Inr K" and "i < length x" and "j < length x"
  shows "K ! i ! j = K ! j ! i"
proof -
  let ?e = "\<lambda>a b. rbf_entry l v (sqrt (max ((b\<^sup>2 + (- 2) * (a * b)) + a\<^sup>2) clamp_floor))"
  have K: "K = map (\<lambda>a. map (\<lambda>b. ?e a b) x) x"
    using assms(1) unfolding rbf_kernel_eq by simp
  have "?e a b = ?e b a" for a b :: real
    by (simp add: algebra_simps)
  then have "?e (x ! i) (x ! j) = ?e (x ! j) (x ! i)" .
  then show ?thesis
    unfolding K using assms(2,3) by simp
qed

lemma mat_add_diag:
  assumes "length K = N" and "\<forall>r\<in>set K. length r = N"
  shows "length (mat_add K (map (\<lambda>i. map (\<lambda>j. if i = j then d j else 0) [0..<N]) [0..<N])) = N \<and>
         (\<forall>i<N. length (mat_add K (map (\<lambda>i. map (\<lambda>j. if i = j then d j else 0) [0..<N]) [0..<N]) ! i) = N \<and>
            (\<forall>j<N. mat_add K (map (\<lambda>i. map (\<lambda>j. if i = j then d j else 0) [0..<N]) [0..<N]) ! i ! j
                      = K ! i ! j + (if i = j then d i else 0)))"
proof -
  have row: "length (K ! i) = N" if "i < N" for i
    using assms that by simp
  show ?thesis
    using assms(1) row by (simp add: mat_add_length mat_add_nth)
qed


lemma noisy_cov_Inr:
  assumes "noisy_cov K noise N = Inr K_y" and "length K = N" and "\<forall>r\<in>set K. length r = N"
  shows "length K_y = N \<and> (\<forall>i<N. length (K_y ! i) = N) \<and>
         (\<exists>d. \<forall>i<N. \<forall>j<N. K_y ! i ! j = K ! i ! j + (if i = j then d i else 0))"
proof -
  have "\<exists>d. K_y = mat_add K (map (\<lambda>i. map (\<lambda>j. if i = j then d j else 0) [0..<N]) [0..<N])"
  proof (cases noise)
    case (Scalar s)
    then have "K_y = mat_add K (map (\<lambda>i. map (\<lambda>j. if i = j then (\<lambda>_. s) j else 0) [0..<N]) [0..<N])"
      using assms(1) by (simp add: noisy_cov_def noise_times_eye_Scalar)
    then show ?thesis by (rule exI [of _ "\<lambda>_. s"])
  next
    case (PerPoint ns)
    show ?thesis
    proof (cases "length ns = N")
      case True
      then have "K_y = mat_add K (map (\<lambda>i. map (\<lambda>j. if i = j then (\<lambda>j. ns ! j) j else 0) [0..<N]) [0..<N])"
        using assms(1) PerPoint by (simp add: noisy_cov_def noise_times_eye_PerPoint)
      then show ?thesis by (rule exI [of _ "\<lambda>j. ns ! j"])
    next
      case False
      then have one: "length ns = 1"
        using assms(1) PerPoint by (simp add: noisy_cov_def noise_times_eye_def split: if_splits)
      have "noise_times_eye (PerPoint ns) N = noise_times_eye (Scalar (ns ! 0)) N"
        using False one by (simp add: noise_times_eye_def)
      then have "K_y = mat_add K (map (\<lambda>i. map (\<lambda>j. if i = j then (\<lambda>_. ns ! 0) j else 0) [0..<N]) [0..<N])"
        using assms(1) PerPoint by (simp add: noisy_cov_def noise_times_eye_Scalar)
      then show ?thesis by (rule exI [of _ "\<lambda>_. ns ! 0"])
    qed
  qed
  then obtain d where
    K_y: "K_y = mat_add K (map (\<lambda>i. map (\<lambda>j. if i = j then d j else 0) [0..<N]) [0..<N])"
    by blast
  show ?thesis
    unfolding K_y using mat_add_diag [OF assms(2,3), of d] by blast
qed

lemma noisy_kernel_shape:
  assumes "rbf_kernel x x l v = Inr K" and "noisy_cov K noise (length x) = Inr K_y"
  shows "is_square K_y \<and> length K_y = length x \<and>
         (\<forall>i<length x. \<forall>j<length x. K_y ! i ! j = K_y ! j ! i)"
proof -
  have sh: "length K = length x" "\<forall>r\<in>set K. length r = length x"
    using rbf_kernel_shape [OF assms(1)] by simp_all
  from noisy_cov_Inr [OF assms(2) sh] obtain d where
    d: "length K_y = length x" "\<forall>i<length x. length (K_y ! i) = length x"
       "\<forall>i<length x. \<forall>j<length x. K_y ! i ! j = K ! i ! j + (if i = j then d i else 0)"
    by blast
  have "K_y ! i ! j = K_y ! j ! i" if "i < length x" "j < length x" for i j
    using d(3) that rbf_kernel_sym [OF assms(1) that] by auto
  then show ?thesis
    using d(1,2) by (simp add: is_square_def list_all_length)
qed


lemma trtrs_mismatch:
  assumes "length b \<noteq> length A"
  shows "trtrs b A upper = Inl SizeMismatch"
  using assms by (simp add: trtrs_def Let_def)

lemma trtrs_vec:
  assumes "is_square A" and "\<forall>i<length A. A ! i ! i \<noteq> 0" and "length t = length A"
  shows "trtrs (unsqueeze_last t) A upper =
           Inr (unsqueeze_last (if upper then backward_subst A t (length A) (length A)
                                else forward_subst A t (length A)))"
proof -
  have "\<exists>X. trtrs (unsqueeze_last t) A upper = Inr X \<and> length X = length A \<and>
          (\<forall>r\<in>set X. length r = 1)"
    using assms by (intro trtrs_total) (auto simp: unsqueeze_last_def)
  then obtain X where X: "trtrs (unsqueeze_last t) A upper = Inr X" by blast
  show ?thesis using X trtrs_unsqueeze [OF X] by simp
qed

lemma gp_inference_success:
  assumes K: "rbf_kernel obs_x obs_x l v = Inr K"
    and Ky: "noisy_cov K noise (length obs_x) = Inr K_y"
    and ch: "cholesky K_y = Inr L"
    and Ks: "rbf_kernel obs_x x_new l v = Inr Ks"
    and lent: "length obs_t = length obs_x"
  shows "\<exists>V. gp_inference obs_x obs_t x_new (l, v, noise) prior_mean =
           Inr (posterior_mean_of Ks
                  (backward_subst (mat_t (length obs_x) L)
                     (forward_subst L (map (\<lambda>t. t - prior_mean) obs_t) (length obs_x))
                     (length obs_x) (length obs_x))
                  (length x_new) prior_mean,
                V,
                log_lik_of L (unsqueeze_last
                  (forward_subst L (map (\<lambda>t. t - prior_mean) obs_t) (length obs_x)))
                  (length obs_x))"
proof -
  let ?N = "length obs_x"
  let ?t = "map (\<lambda>t. t - prior_mean) obs_t"
  let ?U = "mat_t ?N L"
  let ?z = "forward_subst L ?t ?N"
  let ?a = "backward_subst ?U ?z ?N ?N"
  have lenKy: "length K_y = ?N"
    using noisy_kernel_shape [OF K Ky] by simp
  have sh: "is_square K_y" "length L = ?N" "\<forall>i<?N. length (L ! i) = ?N \<and> 0 < L ! i ! i"
    using cholesky_shape [OF ch] lenKy by simp_all
  have sqL: "is_square L"
    using sh by (simp add: is_square_def list_all_length)
  have nzL: "\<forall>i<length L. L ! i ! i \<noteq> 0"
    using sh by auto
  have sqU: "is_square ?U"
    using is_square_mat_t [of L] sh(2) by simp
  have lenU: "length ?U = length L" using sh(2) by simp
  have nzU: "\<forall>i<length ?U. ?U ! i ! i \<noteq> 0"
    using sh by (auto simp: mat_t_nth_nth)
  have z: "trtrs (unsqueeze_last ?t) L False = Inr (unsqueeze_last ?z)"
    using trtrs_vec [OF sqL nzL, of ?t False] lent sh(2) by simp
  have a: "trtrs (unsqueeze_last ?z) ?U True = Inr (unsqueeze_last ?a)"
    using trtrs_vec [OF sqU nzU, of ?z True] by simp
  obtain Kp where Kp: "rbf_kernel x_new x_new l v = Inr Kp"
    using rbf_kernel_total by blast
  have shKs: "length Ks = length L" "\<forall>r\<in>set Ks. length r = length x_new"
    using rbf_kernel_shape [OF Ks] sh(2) by simp_all
  obtain v0 where v0: "trtrs Ks L False = Inr v0" "length v0 = length L"
      "\<forall>r\<in>set v0. length r = length x_new"
    using trtrs_total [OF sqL nzL shKs, of False] by blast
  obtain v1 where v1: "trtrs v0 ?U True = Inr v1"
    using trtrs_total [OF sqU nzU _ v0(3), of True] v0(2) lenU by auto
  show ?thesis
    unfolding gp_inference_def Let_def
    by (simp add: K Ky ch z a Ks Kp v0 v1 posterior_mean_of_def)
qed

lemma gp_inference_Inr:
  assumes "gp_inference obs_x obs_t x_new (l, v, noise) prior_mean = Inr res"
  shows "\<exists>K K_y L. rbf_kernel obs_x obs_x l v = Inr K \<and>
           noisy_cov K noise (length obs_x) = Inr K_y \<and> cholesky K_y = Inr L \<and>
           length obs_t = length obs_x"
proof -
  obtain K where K: "rbf_kernel obs_x obs_x l v = Inr K"
    using rbf_kernel_total by blast
  have "\<exists>K_y. noisy_cov K noise (length obs_x) = Inr K_y"
    using assms unfolding gp_inference_def Let_def
    by (cases "noisy_cov K noise (length obs_x)") (simp_all add: K)
  then obtain K_y where Ky: "noisy_cov K noise (length obs_x) = Inr K_y" by blast
  have "\<exists>L. cholesky K_y = Inr L"
    using assms unfolding gp_inference_def Let_def
    by (cases "cholesky K_y") (simp_all add: K Ky)
  then obtain L where ch: "cholesky K_y = Inr L" by blast
  have lenL: "length L = length obs_x"
    using cholesky_shape [OF ch] noisy_kernel_shape [OF K Ky] by simp
  have "length obs_t = length obs_x"
  proof (rule ccontr)
    assume "length obs_t \<noteq> length obs_x"
    then have "trtrs (unsqueeze_last (map (\<lambda>t. t - prior_mean) obs_t)) L False = Inl SizeMismatch"
      using lenL by (intro trtrs_mismatch) (simp add: unsqueeze_last_def)
    then show False
      using assms unfolding gp_inference_def Let_def by (simp add: K Ky ch)
  qed
  then show ?thesis using K Ky ch by blast
qed

lemma sum_list_map_upt: "sum_list (map f [0..<n]) = (\<Sum>i<n. f i)" for f :: "nat \<Rightarrow> real"
  by (simp add: interv_sum_list_conv_sum_set_nat lessThan_atLeast0)

lemma sum_list_map_nth: "sum_list (map f xs) = (\<Sum>i<length xs. f (xs ! i))" for f :: "real \<Rightarrow> real"
proof -
  have "map f xs = map (\<lambda>i. f (xs ! i)) [0..<length xs]"
    by (intro nth_equalityI) simp_all
  then show ?thesis by (simp only: sum_list_map_upt)
qed

lemma log_lik_of_sum:
  assumes "length L = N" and "length z = N"
  shows "log_lik_of L (unsqueeze_last z) N =
           - (1 / 2) * (\<Sum>i<N. ln \<bar>L ! i ! i\<bar>) - 1 / 2 * (\<Sum>i<N. (z ! i)\<^sup>2)
           - real N / 2 * ln (2 * pi)"
proof -
  have c: "concat (unsqueeze_last z) = z"
    by (induction z) (simp_all add: unsqueeze_last_def)
  have d: "sum_list (map (\<lambda>x. ln \<bar>x\<bar>) (diag L)) = (\<Sum>i<N. ln \<bar>L ! i ! i\<bar>)"
    using assms(1) by (simp add: diag_def comp_def sum_list_map_upt)
  have s: "sum_list (map (\<lambda>x. x\<^sup>2) z) = (\<Sum>i<N. (z ! i)\<^sup>2)"
    using assms(2) by (simp add: sum_list_map_nth)
  show ?thesis
    unfolding log_lik_of_def c d s by (simp add: algebra_simps)
qed

lemma posterior_mean_of_nth:
  assumes "length Ks = N" and "\<forall>r\<in>set Ks. length r = M" and "length alpha = N"
  shows "length (posterior_mean_of Ks alpha M prior_mean) = M \<and>
         (\<forall>j<M. posterior_mean_of Ks alpha M prior_mean ! j
                   = (\<Sum>i<N. Ks ! i ! j * alpha ! i) + prior_mean)"
proof -
  have col: "map (\<lambda>br. br ! 0) (unsqueeze_last alpha) = alpha"
    by (simp add: unsqueeze_last_def comp_def)
  have "dot (map (\<lambda>r. r ! j) Ks) alpha = (\<Sum>i<N. Ks ! i ! j * alpha ! i)" for j
    using assms(1,3) by (simp add: dot_sum)
  then show ?thesis
    by (simp add: posterior_mean_of_def matmul_def mat_t_def col)
qed

lemma cholesky_solve:
  assumes F: "lower_cholesky_factor L A"
    and z: "\<forall>i<length A. (\<Sum>j<Suc i. L ! i ! j * z ! j) = t ! i"
    and a: "\<forall>i<length A. (\<Sum>j = i..<length A. L ! j ! i * alpha ! j) = z ! i"
    and i: "i < length A"
  shows "(\<Sum>j<length A. A ! i ! j * alpha ! j) = t ! i"
proof -
  let ?n = "length A"
  have up0: "L ! k ! m = 0" if "k < m" "m < ?n" for k m
    using F that by (simp add: lower_cholesky_factor_def)
  have ent: "A ! k ! j = (\<Sum>m<?n. L ! k ! m * L ! j ! m)" if "k < ?n" "j < ?n" for k j
    using F that by (simp add: lower_cholesky_factor_def)
  have col: "(\<Sum>j<?n. L ! j ! m * alpha ! j) = z ! m" if "m < ?n" for m
  proof -
    have "(\<Sum>j<?n. L ! j ! m * alpha ! j) = (\<Sum>j = m..<?n. L ! j ! m * alpha ! j)"
    proof (rule sum.mono_neutral_right)
      show "\<forall>j\<in>{..<?n} - {m..<?n}. L ! j ! m * alpha ! j = 0"
        using that up0 by auto
    qed auto
    then show ?thesis using a that by simp
  qed
  have "(\<Sum>j<?n. A ! i ! j * alpha ! j) = (\<Sum>j<?n. \<Sum>m<?n. L ! i ! m * (L ! j ! m * alpha ! j))"
  proof (intro sum.cong refl)
    fix j assume "j \<in> {..<?n}"
    then have "A ! i ! j * alpha ! j = (\<Sum>m<?n. L ! i ! m * L ! j ! m) * alpha ! j"
      using ent i by simp
    also have "\<dots> = (\<Sum>m<?n. L ! i ! m * L ! j ! m * alpha ! j)" by (rule sum_distrib_right)
    also have "\<dots> = (\<Sum>m<?n. L ! i ! m * (L ! j ! m * alpha ! j))"
      by (intro sum.cong refl) (simp add: mult_ac)
    finally show "A ! i ! j * alpha ! j = (\<Sum>m<?n. L ! i ! m * (L ! j ! m * alpha ! j))" .
  qed
  also have "\<dots> = (\<Sum>m<?n. \<Sum>j<?n. L ! i ! m * (L ! j ! m * alpha ! j))"
    by (rule sum.swap)
  also have "\<dots> = (\<Sum>m<?n. L ! i ! m * (\<Sum>j<?n. L ! j ! m * alpha ! j))"
    by (simp add: sum_distrib_left)
  also have "\<dots> = (\<Sum>m<?n. L ! i ! m * z ! m)"
    using col by (intro sum.cong refl) simp
  also have "\<dots> = (\<Sum>m<Suc i. L ! i ! m * z ! m)"
    using i up0 [of i] by (intro sum_lower_cut) auto
  also have "\<dots> = t ! i" using z i by simp
  finally show ?thesis .
qed

lemma triangular_solves:
  assumes F: "lower_cholesky_factor L A" and len: "length A = N"
  shows "(\<forall>i<N. (\<Sum>j<Suc i. L ! i ! j * forward_subst L t N ! j) = t ! i) \<and>
         (\<forall>i<N. (\<Sum>j = i..<N. L ! j ! i *
                    backward_subst (mat_t N L) (forward_subst L t N) N N ! j)
                 = forward_subst L t N ! i)"
proof -
  have rows: "length (L ! i) = N" "L ! i ! i \<noteq> 0" if "i < N" for i
    using F len that by (auto simp: lower_cholesky_factor_def)
  have lenL: "length L = N" using F len by (simp add: lower_cholesky_factor_def)
  have fwd: "(\<Sum>j<Suc i. L ! i ! j * forward_subst L t N ! j) = t ! i" if "i < N" for i
    using that rows [OF that] by (intro forward_subst_solves) simp_all
  have bwd: "(\<Sum>j = i..<N. L ! j ! i * backward_subst (mat_t N L) z N N ! j) = z ! i"
    if "i < N" for i z
  proof -
    have "(\<Sum>j = i..<N. mat_t N L ! i ! j * backward_subst (mat_t N L) z N N ! j) = z ! i"
      using that rows [OF that] lenL
      by (intro backward_subst_solves) (simp_all add: mat_t_nth mat_t_nth_nth)
    moreover have "mat_t N L ! i ! j = L ! j ! i" if "j \<in> {i..<N}" for j
      using that \<open>i < N\<close> lenL by (simp add: mat_t_nth_nth)
    ultimately show ?thesis by simp
  qed
  show ?thesis using fwd bwd by blast
qed

section \<open>Concrete one-point inputs\<close>

lemma spd_symmetric:
  "spd A \<Longrightarrow> i < length A \<Longrightarrow> j < length A \<Longrightarrow> A ! i ! j = A ! j ! i"
  by (simp add: spd_def)

lemma spd_1x1:
  assumes "0 < a"
  shows "spd [[a]]"
proof -
  have "0 < quad_form [[a]] x" if "x ! 0 \<noteq> 0" for x
  proof -
    have "quad_form [[a]] x = a * (x ! 0 * x ! 0)" by (simp add: quad_form_def)
    moreover have "0 < x ! 0 * x ! 0" using that by (simp add: zero_less_mult_iff not_less) (metis less_linear)
    ultimately show ?thesis using assms by simp
  qed
  then show ?thesis by (simp add: spd_def is_square_def)
qed

lemma rbf_kernel_single:
  "rbf_kernel [a] [a] 1 1 = Inr [[exp (- clamp_floor / 2)]]"
  using clamp_floor_pos by (simp add: rbf_kernel_eq rbf_entry_def power2_eq_square max_def)

lemma noisy_cov_single:
  "noisy_cov [[k]] (Scalar s) (Suc 0) = Inr [[k + s]]"
  by (simp add: noisy_cov_def noise_times_eye_Scalar mat_add_def)

section \<open>The log marginal likelihood\<close>

lemma log_lik_value:
  fixes obs_x obs_t x_new :: vec and prior_mean :: real
  defines "N \<equiv> length obs_x"
  defines "t \<equiv> map (\<lambda>y. y - prior_mean) obs_t"
  assumes K: "rbf_kernel obs_x obs_x lengthscale variance = Inr K"
    and Ky: "noisy_cov K noise N = Inr K_y"
    and S: "spd K_y"
    and lent: "length obs_t = N"
    and "obs_x \<noteq> []" and "x_new \<noteq> []"
  shows "\<exists>L z alpha m V.
           cholesky K_y = Inr L \<and> lower_cholesky_factor L K_y \<and>
           z = forward_subst L t N \<and>
           (\<forall>i<N. (\<Sum>j<Suc i. L ! i ! j * z ! j) = t ! i) \<and>
           trtrs (unsqueeze_last t) L False = Inr (unsqueeze_last z) \<and>
           trtrs (unsqueeze_last z) (mat_t N L) True = Inr (unsqueeze_last alpha) \<and>
           gp_inference obs_x obs_t x_new (lengthscale, variance, noise) prior_mean =
             Inr (m, V,
                  - (1 / 2) * (\<Sum>i<N. ln \<bar>L ! i ! i\<bar>) - 1 / 2 * (\<Sum>i<N. (z ! i)\<^sup>2)
                  - real N / 2 * ln (2 * pi))"
proof -
  obtain L where ch: "cholesky K_y = Inr L"
    using spd_cholesky [OF S] by blast
  have lenKy: "length K_y = N"
    using noisy_kernel_shape [OF K Ky [unfolded N_def]] by (simp add: N_def)
  have F: "lower_cholesky_factor L K_y"
    using ch spd_symmetric [OF S] by (intro cholesky_lower_factor) simp_all
  have lenL: "length L = N" using F lenKy by (simp add: lower_cholesky_factor_def)
  have sqL: "is_square L" and nzL: "\<forall>i<length L. L ! i ! i \<noteq> 0"
    using F lenKy lenL by (auto simp: lower_cholesky_factor_def is_square_def list_all_length)
  let ?z = "forward_subst L t N"
  let ?a = "backward_subst (mat_t N L) ?z N N"
  have sqU: "is_square (mat_t N L)" using is_square_mat_t [of L] lenL by simp
  have nzU: "\<forall>i<length (mat_t N L). mat_t N L ! i ! i \<noteq> 0"
    using nzL lenL by (simp add: mat_t_nth_nth)
  have z: "trtrs (unsqueeze_last t) L False = Inr (unsqueeze_last ?z)"
    using trtrs_vec [OF sqL nzL, of t False] lent lenL by (simp add: t_def)
  have a: "trtrs (unsqueeze_last ?z) (mat_t N L) True = Inr (unsqueeze_last ?a)"
    using trtrs_vec [OF sqU nzU, of ?z True] by simp
  have sol: "\<forall>i<N. (\<Sum>j<Suc i. L ! i ! j * ?z ! j) = t ! i"
    using triangular_solves [OF F lenKy, of t] by blast
  obtain Ks where Ks: "rbf_kernel obs_x x_new lengthscale variance = Inr Ks"
    using rbf_kernel_total by blast
  from gp_inference_success [OF K Ky [unfolded N_def] ch Ks lent [unfolded N_def],
      of prior_mean]
  obtain m V where
    "gp_inference obs_x obs_t x_new (lengthscale, variance, noise) prior_mean =
       Inr (m, V, log_lik_of L (unsqueeze_last ?z) N)"
    unfolding N_def t_def by blast
  then have "gp_inference obs_x obs_t x_new (lengthscale, variance, noise) prior_mean =
       Inr (m, V, - (1 / 2) * (\<Sum>i<N. ln \<bar>L ! i ! i\<bar>) - 1 / 2 * (\<Sum>i<N. (?z ! i)\<^sup>2)
                  - real N / 2 * ln (2 * pi))"
    using log_lik_of_sum [OF lenL, of ?z] by simp
  then show ?thesis using ch F sol z a by blast
qed

section \<open>The posterior mean\<close>

text \<open>
  Claim C4. Whenever \<open>gp_inference\<close> returns, the targets it works with are the given
  targets minus the prior mean; \<open>alpha\<close> comes from them by the forward solve against
  the Cholesky factor followed by the backward solve against its transpose, so that
  \<open>K_y alpha\<close> is the vector of offset targets; and the returned mean is
  \<open>K_obs_pred\<^sup>T alpha\<close> plus the prior mean, entry by entry.
\<close>

theorem posterior_mean_offset:
  fixes obs_x obs_t x_new :: vec and prior_mean :: real
  defines "N \<equiv> length obs_x"
  defines "M \<equiv> length x_new"
  defines "t \<equiv> map (\<lambda>y. y - prior_mean) obs_t"
  assumes res: "gp_inference obs_x obs_t x_new (lengthscale, variance, noise) prior_mean
                  = Inr (m, V, ll)"
  shows "\<exists>K K_y L K_obs_pred z alpha.
           rbf_kernel obs_x obs_x lengthscale variance = Inr K \<and>
           noisy_cov K noise N = Inr K_y \<and>
           cholesky K_y = Inr L \<and>
           rbf_kernel obs_x x_new lengthscale variance = Inr K_obs_pred \<and>
           length t = N \<and>
           trtrs (unsqueeze_last t) L False = Inr (unsqueeze_last z) \<and>
           trtrs (unsqueeze_last z) (mat_t N L) True = Inr (unsqueeze_last alpha) \<and>
           (\<forall>i<N. (\<Sum>j<N. K_y ! i ! j * alpha ! j) = t ! i) \<and>
           length m = M \<and>
           (\<forall>j<M. m ! j = (\<Sum>i<N. K_obs_pred ! i ! j * alpha ! i) + prior_mean)"
proof -
  from gp_inference_Inr [OF res] obtain K K_y L where
    K: "rbf_kernel obs_x obs_x lengthscale variance = Inr K"
    and Ky: "noisy_cov K noise (length obs_x) = Inr K_y"
    and ch: "cholesky K_y = Inr L"
    and lent: "length obs_t = length obs_x"
    by blast
  obtain Ks where Ks: "rbf_kernel obs_x x_new lengthscale variance = Inr Ks"
    using rbf_kernel_total by blast
  let ?z = "forward_subst L t N"
  let ?a = "backward_subst (mat_t N L) ?z N N"
  from gp_inference_success [OF K Ky ch Ks lent, of prior_mean] res
  have m: "m = posterior_mean_of Ks ?a M prior_mean"
    by (auto simp: N_def M_def t_def)
  have shape: "is_square K_y" "length K_y = N"
      "\<forall>i<length K_y. \<forall>j<length K_y. K_y ! i ! j = K_y ! j ! i"
    using noisy_kernel_shape [OF K Ky] by (simp_all add: N_def)
  have F: "lower_cholesky_factor L K_y"
    using ch shape(3) by (intro cholesky_lower_factor) simp_all
  have lenL: "length L = N" using F shape(2) by (simp add: lower_cholesky_factor_def)
  have sqL: "is_square L" and nzL: "\<forall>i<length L. L ! i ! i \<noteq> 0"
    using F shape(2) lenL
    by (auto simp: lower_cholesky_factor_def is_square_def list_all_length)
  have sqU: "is_square (mat_t N L)" using is_square_mat_t [of L] lenL by simp
  have nzU: "\<forall>i<length (mat_t N L). mat_t N L ! i ! i \<noteq> 0"
    using nzL lenL by (simp add: mat_t_nth_nth)
  have lt: "length t = N" using lent by (simp add: t_def N_def)
  have z: "trtrs (unsqueeze_last t) L False = Inr (unsqueeze_last ?z)"
    using trtrs_vec [OF sqL nzL, of t False] lt lenL by simp
  have a: "trtrs (unsqueeze_last ?z) (mat_t N L) True = Inr (unsqueeze_last ?a)"
    using trtrs_vec [OF sqU nzU, of ?z True] by simp
  have tri: "\<forall>i<length K_y. (\<Sum>j<Suc i. L ! i ! j * ?z ! j) = t ! i"
      "\<forall>i<length K_y. (\<Sum>j = i..<length K_y. L ! j ! i * ?a ! j) = ?z ! i"
    using triangular_solves [OF F shape(2), of t] shape(2) by simp_all
  have solve: "\<forall>i<N. (\<Sum>j<N. K_y ! i ! j * ?a ! j) = t ! i"
    using cholesky_solve [OF F tri] shape(2) by simp
  have shKs: "length Ks = N" "\<forall>r\<in>set Ks. length r = M"
    using rbf_kernel_shape [OF Ks] by (simp_all add: N_def M_def)
  have mean: "length m = M \<and> (\<forall>j<M. m ! j = (\<Sum>i<N. Ks ! i ! j * ?a ! i) + prior_mean)"
    unfolding m by (rule posterior_mean_of_nth [OF shKs]) simp
  show ?thesis
    using K Ky [folded N_def] ch Ks lt z a solve mean by blast
qed

theorem posterior_mean_offset_witness:
  "\<exists>m V ll K_y K_obs_pred alpha.
      gp_inference [0] [3] [0] (1, 1, Scalar 1) 2 = Inr (m, V, ll) \<and>
      noisy_cov [[exp (- clamp_floor / 2)]] (Scalar 1) 1 = Inr K_y \<and>
      rbf_kernel [0] [0] 1 1 = Inr K_obs_pred \<and>
      K_y ! 0 ! 0 * alpha ! 0 = 3 - 2 \<and>
      length m = 1 \<and>
      m ! 0 = K_obs_pred ! 0 ! 0 * alpha ! 0 + 2"
proof -
  have K: "rbf_kernel [0] [0] 1 1 = Inr [[exp (- clamp_floor / 2)]]"
    by (rule rbf_kernel_single)
  have Ky: "noisy_cov [[exp (- clamp_floor / 2)]] (Scalar 1) (length [0::real])
              = Inr [[exp (- clamp_floor / 2) + 1]]"
    by (simp add: noisy_cov_single)
  have S: "spd [[exp (- clamp_floor / 2) + 1]]"
    by (intro spd_1x1) (simp add: add_pos_pos)
  obtain L where ch: "cholesky [[exp (- clamp_floor / 2) + 1]] = Inr L"
    using spd_cholesky [OF S] by blast
  have len: "length [3::real] = length [0::real]" by simp
  from gp_inference_success [OF K Ky ch K len, of 2]
  obtain m V ll where res: "gp_inference [0] [3] [0] (1, 1, Scalar 1) 2 = Inr (m, V, ll)"
    by blast
  from posterior_mean_offset [OF res]
  show ?thesis using res K Ky by (simp del: forward_subst.simps backward_subst.simps) blast
qed

section \<open>Failures of GP inference\<close>




lemma raising_chain_fail:
  assumes K: "rbf_kernel obs_x obs_x l v = Inr K"
    and Ky: "noisy_cov K noise (length obs_x) = Inr K_y"
    and ch: "cholesky K_y = Inl e"
  shows "gp_inference obs_x obs_t x_new (l, v, noise) prior_mean = Inl e"
  unfolding gp_inference_def Let_def fst_conv snd_conv K Ky ch raising_Inr raising_Inl
  by (rule refl)



lemma gp_inference_total_spd:
  assumes K: "rbf_kernel obs_x obs_x l v = Inr K"
    and Ky: "noisy_cov K noise (length obs_x) = Inr K_y"
    and S: "spd K_y"
    and lent: "length obs_t = length obs_x"
  shows "\<exists>res. gp_inference obs_x obs_t x_new (l, v, noise) prior_mean = Inr res"
proof -
  obtain L where ch: "cholesky K_y = Inr L" using spd_cholesky [OF S] by blast
  obtain Ks where Ks: "rbf_kernel obs_x x_new l v = Inr Ks"
    using rbf_kernel_total by blast
  from gp_inference_success [OF K Ky ch Ks lent, of prior_mean]
  show ?thesis by blast
qed







section \<open>The training loop\<close>

lemma nlog_lik_at_Inr:
  assumes "gp_inference obs_x obs_t [- 30] (exp a, exp b, Scalar (exp c)) 0 = Inr res"
  shows "nlog_lik_at obs_x obs_t (a, b, c) = Inr (- snd (snd res))"
  using assms by (simp add: nlog_lik_at_def)

lemma training_loop_append:
  assumes "\<forall>i<S. \<exists>nll. nlog_lik_at obs_x obs_t (snd ((step ^^ i) st)) = Inr nll"
  shows "\<exists>new. (\<forall>tr. training_loop step obs_x obs_t S st tr
                        = Inr ((step ^^ S) st, tr @ new)) \<and>
               length new = S \<and>
               (\<forall>i<S. nlog_lik_at obs_x obs_t (snd ((step ^^ i) st)) = Inr (new ! i))"
  using assms
proof (induction S arbitrary: st)
  case 0
  then show ?case by simp
next
  case (Suc S)
  from Suc.prems obtain v where v: "nlog_lik_at obs_x obs_t (snd st) = Inr v"
    by fastforce
  have "\<forall>i<S. \<exists>nll. nlog_lik_at obs_x obs_t (snd ((step ^^ i) (step st))) = Inr nll"
  proof (intro allI impI)
    fix i assume "i < S"
    then have "\<exists>nll. nlog_lik_at obs_x obs_t (snd ((step ^^ Suc i) st)) = Inr nll"
      using Suc.prems by (meson Suc_less_eq)
    then show "\<exists>nll. nlog_lik_at obs_x obs_t (snd ((step ^^ i) (step st))) = Inr nll"
      by (simp add: funpow_swap1)
  qed
  from Suc.IH [OF this] obtain new where
    run: "\<And>tr. training_loop step obs_x obs_t S (step st) tr
                = Inr ((step ^^ S) (step st), tr @ new)"
    and len: "length new = S"
    and ent: "\<And>i. i < S \<Longrightarrow>
                nlog_lik_at obs_x obs_t (snd ((step ^^ i) (step st))) = Inr (new ! i)"
    by blast
  have a: "training_loop step obs_x obs_t (Suc S) st tr
             = Inr ((step ^^ Suc S) st, tr @ (v # new))" for tr
    using v run [of "tr @ [v]"] by (simp add: funpow_swap1)
  have c: "nlog_lik_at obs_x obs_t (snd ((step ^^ i) st)) = Inr ((v # new) ! i)"
    if "i < Suc S" for i
  proof (cases i)
    case 0
    then show ?thesis using v by simp
  next
    case (Suc k)
    then have "k < S" using that by simp
    from ent [OF this] show ?thesis using Suc by (simp add: funpow_swap1)
  qed
  show ?case
    using a len c by (intro exI [of _ "v # new"]) simp
qed

lemma training_loop_trace:
  assumes "\<forall>i<S. \<exists>nll. nlog_lik_at obs_x obs_t (snd ((step ^^ i) st)) = Inr nll"
  shows "\<exists>new. run_training step obs_x obs_t S st = Inr ((step ^^ S) st, new) \<and>
               length new = S \<and>
               (\<forall>i<S. nlog_lik_at obs_x obs_t (snd ((step ^^ i) st)) = Inr (new ! i)) \<and>
               (\<forall>k\<le>S. \<forall>tr. training_loop step obs_x obs_t k st tr
                                = Inr ((step ^^ k) st, tr @ take k new))"
proof -
  from training_loop_append [OF assms] obtain new where
    run: "\<And>tr. training_loop step obs_x obs_t S st tr = Inr ((step ^^ S) st, tr @ new)"
    and len: "length new = S"
    and ent: "\<And>i. i < S \<Longrightarrow>
                nlog_lik_at obs_x obs_t (snd ((step ^^ i) st)) = Inr (new ! i)"
    by blast
  have pre: "training_loop step obs_x obs_t k st tr = Inr ((step ^^ k) st, tr @ take k new)"
    if "k \<le> S" for k tr
  proof -
    have "\<forall>i<k. \<exists>nll. nlog_lik_at obs_x obs_t (snd ((step ^^ i) st)) = Inr nll"
      using assms that by auto
    from training_loop_append [OF this] obtain newk where
      runk: "\<And>tr. training_loop step obs_x obs_t k st tr = Inr ((step ^^ k) st, tr @ newk)"
      and lenk: "length newk = k"
      and entk: "\<And>i. i < k \<Longrightarrow>
                  nlog_lik_at obs_x obs_t (snd ((step ^^ i) st)) = Inr (newk ! i)"
      by blast
    have "newk = take k new"
    proof (rule nth_equalityI)
      show "length newk = length (take k new)" using lenk len that by simp
    next
      fix i assume "i < length newk"
      then have ik: "i < k" using lenk by simp
      then have "Inr (newk ! i) = (Inr (new ! i) :: error + real)"
        using entk [OF ik] ent [of i] that by simp
      then show "newk ! i = take k new ! i" using ik by simp
    qed
    then show ?thesis using runk by simp
  qed
  show ?thesis
    using run [of "[]"] len ent pre by (intro exI [of _ new]) (simp add: run_training_def)
qed

section \<open>The distance routine with overflow\<close>

lemma f32_max_pos: "0 < f32_max"
  by (simp add: f32_max_def)

lemma overflow_Fin: "\<bar>r\<bar> \<le> f32_max \<Longrightarrow> overflow r = Fin r"
  by (auto simp: overflow_def)

lemma pow2_sum_nonneg: "0 \<le> pow2_sum p"
  by (induction p) (simp_all add: pow2_sum_def)

lemma pow2_sum_Cons: "pow2_sum (c # p) = c\<^sup>2 + pow2_sum p"
  by (simp add: pow2_sum_def)

lemma dot_Cons: "dot (c # a) (d # b) = c * d + dot a b"
  by (simp add: dot_def)

lemma f32_pow2_fold:
  assumes "0 \<le> acc" and "acc + pow2_sum p \<le> f32_max"
  shows "foldl f32_add (Fin acc) (map (\<lambda>c. overflow (c\<^sup>2)) p) = Fin (acc + pow2_sum p)"
  using assms
proof (induction p arbitrary: acc)
  case Nil
  then show ?case by (simp add: pow2_sum_def)
next
  case (Cons c p)
  have nn: "0 \<le> pow2_sum p" by (rule pow2_sum_nonneg)
  have c2: "\<bar>c\<^sup>2\<bar> \<le> f32_max"
    using Cons.prems nn by (simp add: pow2_sum_Cons)
  have s: "\<bar>acc + c\<^sup>2\<bar> \<le> f32_max"
    using Cons.prems nn by (simp add: pow2_sum_Cons)
  have "foldl f32_add (Fin acc) (map (\<lambda>c. overflow (c\<^sup>2)) (c # p))
          = foldl f32_add (Fin (acc + c\<^sup>2)) (map (\<lambda>c. overflow (c\<^sup>2)) p)"
    by (simp add: overflow_Fin [OF c2] overflow_Fin [OF s])
  also have "\<dots> = Fin (acc + c\<^sup>2 + pow2_sum p)"
    using Cons.prems by (intro Cons.IH) (simp_all add: pow2_sum_Cons)
  finally show ?case by (simp add: pow2_sum_Cons add.assoc)
qed

lemma f32_pow2_sum_Fin:
  assumes "pow2_sum p \<le> f32_max"
  shows "f32_pow2_sum p = Fin (pow2_sum p)"
  using f32_pow2_fold [of 0 p] assms by (simp add: f32_pow2_sum_def)

lemma prod_le_half_squares: "\<bar>c * d\<bar> \<le> (c\<^sup>2 + d\<^sup>2) / 2" for c d :: real
proof -
  have "0 \<le> (\<bar>c\<bar> - \<bar>d\<bar>)\<^sup>2" by simp
  then have "2 * (\<bar>c\<bar> * \<bar>d\<bar>) \<le> c\<^sup>2 + d\<^sup>2"
    by (simp add: power2_diff)
  then show ?thesis by (simp add: abs_mult)
qed

lemma f32_dot_fold:
  assumes "length a = length b"
    and "\<bar>acc\<bar> + (pow2_sum a + pow2_sum b) / 2 \<le> f32_max"
  shows "foldl f32_add (Fin acc) (map2 (\<lambda>c d. overflow (c * d)) a b) = Fin (acc + dot a b)"
  using assms
proof (induction a b arbitrary: acc rule: list_induct2)
  case Nil
  then show ?case by (simp add: dot_def)
next
  case (Cons c a d b)
  have nn: "0 \<le> pow2_sum a" "0 \<le> pow2_sum b" by (rule pow2_sum_nonneg)+
  have h: "\<bar>c * d\<bar> \<le> (c\<^sup>2 + d\<^sup>2) / 2" by (rule prod_le_half_squares)
  have bound: "\<bar>acc\<bar> + (c\<^sup>2 + d\<^sup>2) / 2 + (pow2_sum a + pow2_sum b) / 2 \<le> f32_max"
    using Cons.prems by (simp add: pow2_sum_Cons field_simps)
  have p: "\<bar>c * d\<bar> \<le> f32_max" using h bound nn by argo
  have s: "\<bar>acc + c * d\<bar> \<le> f32_max" using h bound nn by argo
  have s': "\<bar>acc + c * d\<bar> + (pow2_sum a + pow2_sum b) / 2 \<le> f32_max"
    using h bound by argo
  have "foldl f32_add (Fin acc) (map2 (\<lambda>c d. overflow (c * d)) (c # a) (d # b))
          = foldl f32_add (Fin (acc + c * d)) (map2 (\<lambda>c d. overflow (c * d)) a b)"
    by (simp add: overflow_Fin [OF p] overflow_Fin [OF s])
  also have "\<dots> = Fin (acc + c * d + dot a b)"
    using s' by (rule Cons.IH)
  finally show ?case by (simp add: dot_Cons add.assoc)
qed

lemma dot_bound:
  assumes "length a = length b"
  shows "\<bar>dot a b\<bar> \<le> (pow2_sum a + pow2_sum b) / 2"
  using assms
proof (induction a b rule: list_induct2)
  case Nil
  then show ?case by (simp add: dot_def pow2_sum_def)
next
  case (Cons c a d b)
  have "\<bar>c * d + dot a b\<bar> \<le> \<bar>c * d\<bar> + \<bar>dot a b\<bar>" by (rule abs_triangle_ineq)
  also have "\<dots> \<le> (c\<^sup>2 + d\<^sup>2) / 2 + (pow2_sum a + pow2_sum b) / 2"
    using prod_le_half_squares [of c d] Cons.IH by argo
  finally show ?case by (simp add: dot_Cons pow2_sum_Cons field_simps)
qed

lemma f32_dot_Fin:
  assumes "length a = length b" and "(pow2_sum a + pow2_sum b) / 2 \<le> f32_max"
  shows "f32_dot a b = Fin (dot a b)"
  using f32_dot_fold [OF assms(1), of 0] assms(2) by (simp add: f32_dot_def)

lemma f32_entry_in_range:
  assumes len: "length a = length b"
    and a: "pow2_sum a \<le> f32_max / 4" and b: "pow2_sum b \<le> f32_max / 4"
  shows "f32_sqrt (f32_clamp_min
           (f32_add (f32_add (f32_pow2_sum b) (f32_scale (- 2) (f32_dot a b))) (f32_pow2_sum a))
           clamp_floor)
         = Fin (sqrt (max ((pow2_sum b + (- 2) * dot a b) + pow2_sum a) clamp_floor))"
proof -
  have nn: "0 \<le> pow2_sum a" "0 \<le> pow2_sum b" by (rule pow2_sum_nonneg)+
  have mp: "0 < f32_max" by (rule f32_max_pos)
  have d: "\<bar>dot a b\<bar> \<le> (pow2_sum a + pow2_sum b) / 2" by (rule dot_bound [OF len])
  have pa: "f32_pow2_sum a = Fin (pow2_sum a)"
    using a mp by (intro f32_pow2_sum_Fin) argo
  have pb: "f32_pow2_sum b = Fin (pow2_sum b)"
    using b mp by (intro f32_pow2_sum_Fin) argo
  have fd: "f32_dot a b = Fin (dot a b)"
    using a b mp by (intro f32_dot_Fin [OF len]) argo
  have sc: "f32_scale (- 2) (Fin (dot a b)) = Fin ((- 2) * dot a b)"
    using d a b nn mp by (simp add: overflow_Fin)
  have s1: "f32_add (Fin (pow2_sum b)) (Fin ((- 2) * dot a b))
              = Fin (pow2_sum b + (- 2) * dot a b)"
    using d a b nn mp by (simp add: overflow_Fin)
  have s2: "f32_add (Fin (pow2_sum b + (- 2) * dot a b)) (Fin (pow2_sum a))
              = Fin ((pow2_sum b + (- 2) * dot a b) + pow2_sum a)"
    using d a b nn mp by (simp add: overflow_Fin)
  have pos: "\<not> max ((pow2_sum b + (- 2) * dot a b) + pow2_sum a) clamp_floor < 0"
    using clamp_floor_pos by (simp add: max_def)
  show ?thesis
    unfolding pa pb fd sc s1 s2 using pos by simp
qed



lemma cdist_f32_in_range:
  assumes w: "\<forall>a\<in>set x1. \<forall>b\<in>set x2. length a = length b"
    and r1: "\<forall>a\<in>set x1. pow2_sum a \<le> f32_max / 4"
    and r2: "\<forall>b\<in>set x2. pow2_sum b \<le> f32_max / 4"
  shows "\<exists>d. cdist x1 x2 = Inr d \<and> cdist_f32 x1 x2 = Inr (map (map Fin) d)"
proof -
  let ?d = "map (\<lambda>a. map (\<lambda>b.
              sqrt (max ((pow2_sum b + (- 2) * dot a b) + pow2_sum a) clamp_floor)) x2) x1"
  have c: "cdist x1 x2 = Inr ?d"
    using w by (simp add: cdist_def list_all_iff)
  have "cdist_f32 x1 x2 = Inr (map (\<lambda>a. map (\<lambda>b.
              f32_sqrt (f32_clamp_min
                (f32_add (f32_add (f32_pow2_sum b) (f32_scale (- 2) (f32_dot a b)))
                         (f32_pow2_sum a))
                clamp_floor)) x2) x1)"
    using w by (simp add: cdist_f32_def list_all_iff)
  also have "(map (\<lambda>a. map (\<lambda>b.
              f32_sqrt (f32_clamp_min
                (f32_add (f32_add (f32_pow2_sum b) (f32_scale (- 2) (f32_dot a b)))
                         (f32_pow2_sum a))
                clamp_floor)) x2) x1) = map (map Fin) ?d"
    using w r1 r2 by (simp add: f32_entry_in_range comp_def cong: map_cong)
  finally show ?thesis using c by blast
qed




section \<open>The diagonal of the training covariance\<close>

text \<open>
  Claim C5, amended. For positive lengthscale and variance and coordinates whose
  squares are at most an eighth of the largest float32, every diagonal entry of \<open>rbf_kernel x x\<close> is
  \<open>variance * exp (- d\<^sup>2 / (2 * lengthscale\<^sup>2))\<close> for the distance \<open>d\<close> that \<open>cdist\<close>
  returns from the point to itself. That distance is at least \<open>sqrt 1e-30\<close> and never
  0, so the diagonal entry is at most the variance; it need not be equal to it.
\<close>

theorem rbf_kernel_diagonal_bound:
  assumes "0 < lengthscale" and "0 < variance" and "i < length x"
    and "\<forall>a\<in>set x. a\<^sup>2 \<le> f32_max / 8"
  shows "\<exists>K d. rbf_kernel x x lengthscale variance = Inr K \<and>
           cdist (unsqueeze_last x) (unsqueeze_last x) = Inr d \<and>
           cdist_f32 (unsqueeze_last x) (unsqueeze_last x) = Inr (map (map Fin) d) \<and>
           sqrt (1 / 10 ^ 30) \<le> d ! i ! i \<and> 0 < d ! i ! i \<and>
           K ! i ! i = variance * exp (- (d ! i ! i)\<^sup>2 / (2 * lengthscale\<^sup>2)) \<and>
           K ! i ! i \<le> variance"
proof -
  let ?u = "unsqueeze_last x"
  have w: "\<forall>a\<in>set ?u. \<forall>b\<in>set ?u. length a = length b"
    by (auto simp: unsqueeze_last_def)
  have "a\<^sup>2 \<le> f32_max / 4" if "a \<in> set x" for a
  proof -
    have "a\<^sup>2 \<le> f32_max / 8" using assms(4) that by blast
    then show ?thesis using f32_max_pos by argo
  qed
  then have r: "\<forall>a\<in>set ?u. pow2_sum a \<le> f32_max / 4"
    by (auto simp: unsqueeze_last_def pow2_sum_def)
  from cdist_f32_in_range [OF w r r] obtain d where
    d: "cdist ?u ?u = Inr d" "cdist_f32 ?u ?u = Inr (map (map Fin) d)" by blast
  have dv: "d = map (\<lambda>a. map (\<lambda>b. sqrt (max ((b\<^sup>2 + (- 2) * (a * b)) + a\<^sup>2) clamp_floor)) x) x"
    using d(1) unfolding cdist_width1 by simp
  have K: "rbf_kernel x x lengthscale variance = Inr (map (map (rbf_entry lengthscale variance)) d)"
    by (simp add: rbf_kernel_def d(1))
  have di: "d ! i ! i
              = sqrt (max (((x ! i)\<^sup>2 + (- 2) * (x ! i * x ! i)) + (x ! i)\<^sup>2) clamp_floor)"
    unfolding dv using assms(3) by simp
  have "1 / 10 ^ 30 \<le> max (((x ! i)\<^sup>2 + (- 2) * (x ! i * x ! i)) + (x ! i)\<^sup>2) clamp_floor"
    by (simp add: clamp_floor_def)
  then have lo: "sqrt (1 / 10 ^ 30) \<le> d ! i ! i"
    unfolding di by (rule real_sqrt_le_mono)
  have "(0::real) < sqrt (1 / 10 ^ 30)" by simp
  then have pos: "0 < d ! i ! i" using lo by linarith
  have len: "i < length d" "i < length (d ! i)"
    using assms(3) by (simp_all add: dv)
  have Kii: "map (map (rbf_entry lengthscale variance)) d ! i ! i
               = variance * exp (- (d ! i ! i)\<^sup>2 / (2 * lengthscale\<^sup>2))"
    using len assms(1) by (simp add: rbf_entry_def)
  have "exp (- (d ! i ! i)\<^sup>2 / (2 * lengthscale\<^sup>2)) \<le> 1"
    using assms(1) by simp
  then have "variance * exp (- (d ! i ! i)\<^sup>2 / (2 * lengthscale\<^sup>2)) \<le> variance"
    using assms(2) by (simp del: exp_le_one_iff)
  then show ?thesis
    using K d lo pos Kii by (intro exI [of _ "map (map (rbf_entry lengthscale variance)) d"] exI [of _ d]) simp
qed

theorem rbf_kernel_diagonal_bound_witness:
  "\<exists>K d. rbf_kernel [1 / 10] [1 / 10] (1 / 1000) 1 = Inr K \<and>
      cdist (unsqueeze_last [1 / 10]) (unsqueeze_last [1 / 10]) = Inr d \<and>
      sqrt (1 / 10 ^ 30) \<le> d ! 0 ! 0 \<and>
      K ! 0 ! 0 = 1 * exp (- (d ! 0 ! 0)\<^sup>2 / (2 * (1 / 1000)\<^sup>2)) \<and>
      K ! 0 ! 0 \<le> 1"
proof -
  have r: "\<forall>a\<in>set [1 / 10 :: real]. a\<^sup>2 \<le> f32_max / 8"
    by (simp add: f32_max_def power2_eq_square)
  from rbf_kernel_diagonal_bound [of "1 / 1000" 1 0 "[1 / 10]", OF _ _ _ r]
  show ?thesis by simp blast
qed

section \<open>The noisy covariance inside GP inference\<close>

text \<open>
  Claim C2. \<open>gp_inference\<close> accepts the noise as one number and as a vector with one
  entry per observation. In both cases it forms \<open>K_y = K + noise * eye(N)\<close> from the
  training covariance \<open>K\<close>: an N x N matrix that differs from \<open>K\<close> on the diagonal
  only, entry (i, i) being \<open>K[i][i]\<close> plus the number, respectively plus the i-th entry
  of the vector. This \<open>K_y\<close> is the matrix that is factored: when its factorisation
  fails, \<open>gp_inference\<close> fails with that error and no other, and when it succeeds,
  the returned mean and log likelihood are computed from its factor.
\<close>

theorem gp_inference_noisy_cov:
  fixes obs_x obs_t x_new :: vec and prior_mean :: real
  defines "N \<equiv> length obs_x"
  defines "t \<equiv> map (\<lambda>y. y - prior_mean) obs_t"
  assumes K: "rbf_kernel obs_x obs_x lengthscale variance = Inr K"
    and form: "noise = Scalar s \<or> (noise = PerPoint ns \<and> length ns = N)"
  shows "\<exists>K_y K_obs_pred.
           noisy_cov K noise N = Inr K_y \<and> length K_y = N \<and>
           (\<forall>i<N. length (K_y ! i) = N \<and>
              (\<forall>j<N. K_y ! i ! j =
                 (if i = j then K ! i ! i + (case noise of Scalar s \<Rightarrow> s | PerPoint ns \<Rightarrow> ns ! i)
                  else K ! i ! j))) \<and>
           rbf_kernel obs_x x_new lengthscale variance = Inr K_obs_pred \<and>
           (\<forall>e. cholesky K_y = Inl e \<longrightarrow>
              e = CholeskyFailed \<and>
              gp_inference obs_x obs_t x_new (lengthscale, variance, noise) prior_mean = Inl e) \<and>
           (\<forall>L. cholesky K_y = Inr L \<and> length obs_t = N \<longrightarrow>
              (\<exists>V. gp_inference obs_x obs_t x_new (lengthscale, variance, noise) prior_mean =
                 Inr (posterior_mean_of K_obs_pred
                        (backward_subst (mat_t N L) (forward_subst L t N) N N)
                        (length x_new) prior_mean,
                      V,
                      log_lik_of L (unsqueeze_last (forward_subst L t N)) N)))"
proof -
  have sh: "length K = N" "\<forall>r\<in>set K. length r = N"
    using rbf_kernel_shape [OF K] by (simp_all add: N_def)
  obtain K_y where Ky: "noisy_cov K noise N = Inr K_y"
    and ent: "length K_y = N"
      "\<forall>i<N. length (K_y ! i) = N \<and>
         (\<forall>j<N. K_y ! i ! j =
            (if i = j then K ! i ! i + (case noise of Scalar s \<Rightarrow> s | PerPoint ns \<Rightarrow> ns ! i)
             else K ! i ! j))"
    using form noisy_cov_nth [OF sh, of s ns] by auto
  obtain Ks where Ks: "rbf_kernel obs_x x_new lengthscale variance = Inr Ks"
    using rbf_kernel_total by blast
  have sq: "is_square K_y"
    using noisy_kernel_shape [OF K Ky [unfolded N_def]] by simp
  have fail: "e = CholeskyFailed \<and>
      gp_inference obs_x obs_t x_new (lengthscale, variance, noise) prior_mean = Inl e"
    if "cholesky K_y = Inl e" for e
    using cholesky_Inl [OF that sq] raising_chain_fail [OF K Ky [unfolded N_def] that]
    by simp
  have ok: "\<exists>V. gp_inference obs_x obs_t x_new (lengthscale, variance, noise) prior_mean =
                 Inr (posterior_mean_of Ks
                        (backward_subst (mat_t N L) (forward_subst L t N) N N)
                        (length x_new) prior_mean,
                      V,
                      log_lik_of L (unsqueeze_last (forward_subst L t N)) N)"
    if "cholesky K_y = Inr L" "length obs_t = N" for L
    using gp_inference_success [OF K Ky [unfolded N_def] that(1) Ks that(2) [unfolded N_def],
        of prior_mean]
    by (simp add: N_def t_def)
  show ?thesis
    using Ky ent Ks fail ok by blast
qed

theorem gp_inference_noisy_cov_witness:
  "\<exists>K_y L K_obs_pred V.
      noisy_cov [[exp (- clamp_floor / 2)]] (PerPoint [2]) 1 = Inr K_y \<and>
      K_y ! 0 ! 0 = exp (- clamp_floor / 2) + 2 \<and>
      cholesky K_y = Inr L \<and>
      gp_inference [0] [1] [0] (1, 1, PerPoint [2]) 0 =
        Inr (posterior_mean_of K_obs_pred
               (backward_subst (mat_t 1 L) (forward_subst L [1] 1) 1 1) 1 0,
             V,
             log_lik_of L (unsqueeze_last (forward_subst L [1] 1)) 1)"
proof -
  have K: "rbf_kernel [0] [0] 1 1 = Inr [[exp (- clamp_floor / 2)]]"
    by (rule rbf_kernel_single)
  have form: "PerPoint [2] = Scalar 0 \<or> (PerPoint [2] = PerPoint [2] \<and> length [2::real] = length [0::real])"
    by simp
  from gp_inference_noisy_cov [OF K form, of "[0]" "[1]" 0]
  obtain K_y Ks where
    Ky: "noisy_cov [[exp (- clamp_floor / 2)]] (PerPoint [2]) 1 = Inr K_y"
    and e: "K_y ! 0 ! 0 = exp (- clamp_floor / 2) + 2"
    and len: "length K_y = 1" "length (K_y ! 0) = 1"
    and ok: "\<And>L. cholesky K_y = Inr L \<Longrightarrow>
              (\<exists>V. gp_inference [0] [1] [0] (1, 1, PerPoint [2]) 0 =
                 Inr (posterior_mean_of Ks
                        (backward_subst (mat_t 1 L) (forward_subst L [1] 1) 1 1) 1 0,
                      V,
                      log_lik_of L (unsqueeze_last (forward_subst L [1] 1)) 1))"
    by (auto simp del: forward_subst.simps backward_subst.simps)
  have "K_y = [[exp (- clamp_floor / 2) + 2]]"
  proof -
    obtain r where r: "K_y = [r]" using len(1) by (cases K_y) auto
    then obtain a where "r = [a]" using len(2) by (cases r) auto
    then show ?thesis using r e by simp
  qed
  moreover have "spd [[exp (- clamp_floor / 2) + 2]]"
    by (intro spd_1x1) (simp add: add_pos_pos)
  ultimately obtain L where L: "cholesky K_y = Inr L"
    using spd_cholesky by blast
  from ok [OF L] show ?thesis using Ky e L by blast
qed

section \<open>The trace of the training loop\<close>

lemma nlog_lik_at_iff:
  "nlog_lik_at obs_x obs_t th = Inr v \<longleftrightarrow>
     (\<exists>m V ll. gp_inference obs_x obs_t [- 30]
                  (exp (fst th), exp (fst (snd th)), Scalar (exp (snd (snd th)))) 0
                = Inr (m, V, ll) \<and> v = - ll)"
  by (cases "gp_inference obs_x obs_t [- 30]
                  (exp (fst th), exp (fst (snd th)), Scalar (exp (snd (snd th)))) 0")
     (auto simp: nlog_lik_at_def Let_def)

text \<open>
  Claim C9. A run with the step budget \<open>S\<close> in which no call of \<open>gp_inference\<close>
  raises makes exactly \<open>S\<close> steps: it ends in the state reached by \<open>S\<close> applications
  of the optimiser step, and its trace has exactly \<open>S\<close> entries, the \<open>i\<close>-th being
  the negated log marginal likelihood that \<open>gp_inference\<close> returns for the training
  set, the test point \<open>-30\<close> and the exponentials of the parameters before step \<open>i\<close>.
  The loop only appends: after \<open>k \<le> S\<close> steps the trace is the trace it started from
  followed by the first \<open>k\<close> entries. There is no other exit from the loop than an
  exception of \<open>gp_inference\<close>.
\<close>

theorem training_trace:
  fixes step :: "'o \<times> theta \<Rightarrow> 'o \<times> theta"
  defines "params_at \<equiv> \<lambda>st i.
     (exp (fst (snd ((step ^^ i) st))), exp (fst (snd (snd ((step ^^ i) st)))),
      Scalar (exp (snd (snd (snd ((step ^^ i) st))))))"
  assumes ok: "\<forall>i<S. \<exists>res. gp_inference obs_x obs_t [- 30] (params_at st i) 0 = Inr res"
  shows "\<exists>new. run_training step obs_x obs_t S st = Inr ((step ^^ S) st, new) \<and>
               length new = S \<and>
               (\<forall>i<S. \<exists>m V log_lik.
                   gp_inference obs_x obs_t [- 30] (params_at st i) 0 = Inr (m, V, log_lik) \<and>
                   new ! i = - log_lik) \<and>
               (\<forall>k\<le>S. \<forall>tr. training_loop step obs_x obs_t k st tr
                                = Inr ((step ^^ k) st, tr @ take k new))"
proof -
  have "\<forall>i<S. \<exists>nll. nlog_lik_at obs_x obs_t (snd ((step ^^ i) st)) = Inr nll"
  proof (intro allI impI)
    fix i assume "i < S"
    then obtain res where
      "gp_inference obs_x obs_t [- 30] (params_at st i) 0 = Inr res"
      using ok by blast
    then have "nlog_lik_at obs_x obs_t (snd ((step ^^ i) st)) = Inr (- snd (snd res))"
      unfolding nlog_lik_at_iff params_at_def by (cases res) auto
    then show "\<exists>nll. nlog_lik_at obs_x obs_t (snd ((step ^^ i) st)) = Inr nll" by blast
  qed
  from training_loop_trace [OF this] obtain new where
    run: "run_training step obs_x obs_t S st = Inr ((step ^^ S) st, new)"
    and len: "length new = S"
    and ent: "\<forall>i<S. nlog_lik_at obs_x obs_t (snd ((step ^^ i) st)) = Inr (new ! i)"
    and pre: "\<forall>k\<le>S. \<forall>tr. training_loop step obs_x obs_t k st tr
                                = Inr ((step ^^ k) st, tr @ take k new)"
    by blast
  have "\<forall>i<S. \<exists>m V log_lik.
          gp_inference obs_x obs_t [- 30] (params_at st i) 0 = Inr (m, V, log_lik) \<and>
          new ! i = - log_lik"
    using ent unfolding nlog_lik_at_iff params_at_def by blast
  then show ?thesis using run len pre by blast
qed

theorem training_trace_witness:
  "\<exists>new m V log_lik.
      run_training id [0] [1] 2 ((), (0, 0, 0)) = Inr (((), (0, 0, 0)), new) \<and>
      length new = 2 \<and>
      gp_inference [0] [1] [- 30] (exp 0, exp 0, Scalar (exp 0)) 0 = Inr (m, V, log_lik) \<and>
      new ! 0 = - log_lik \<and> new ! 1 = - log_lik"
proof -
  have K: "rbf_kernel [0] [0] (exp 0) (exp 0) = Inr [[exp (- clamp_floor / 2)]]"
    using rbf_kernel_single [of 0] by simp
  have Ky: "noisy_cov [[exp (- clamp_floor / 2)]] (Scalar (exp 0)) (length [0::real])
              = Inr [[exp (- clamp_floor / 2) + 1]]"
    by (simp add: noisy_cov_single)
  have S: "spd [[exp (- clamp_floor / 2) + 1]]"
    by (intro spd_1x1) (simp add: add_pos_pos)
  have len: "length [1::real] = length [0::real]" by simp
  from gp_inference_total_spd [OF K Ky S len, of "[- 30]" 0]
  obtain res where res: "gp_inference [0] [1] [- 30] (exp 0, exp 0, Scalar (exp 0)) 0 = Inr res"
    by blast
  have hyp: "\<forall>i<2. \<exists>res. gp_inference [0] [1] [- 30]
      (exp (fst (snd ((id ^^ i) ((), (0, 0, 0))))),
       exp (fst (snd (snd ((id ^^ i) ((), (0, 0, 0)))))),
       Scalar (exp (snd (snd (snd ((id ^^ i) ((), (0, 0, 0)))))))) 0 = Inr res"
    using res by (cases res) auto
  have T: "\<exists>new. run_training id [0] [1] 2 ((), (0, 0, 0)) = Inr (((), (0, 0, 0)), new) \<and>
      length new = 2 \<and>
      (\<forall>i<2. \<exists>m V log_lik.
          gp_inference [0] [1] [- 30] (exp 0, exp 0, Scalar (exp 0)) 0 = Inr (m, V, log_lik) \<and>
          new ! i = - log_lik)"
    using training_trace [OF hyp]
    by simp (elim exE conjE, intro exI conjI, assumption+)
  then obtain new where
    n: "run_training id [0] [1] 2 ((), (0, 0, 0)) = Inr (((), (0, 0, 0)), new)"
      "length new = 2"
    and e: "\<forall>i<2. \<exists>m V log_lik.
      gp_inference [0] [1] [- 30] (exp 0, exp 0, Scalar (exp 0)) 0 = Inr (m, V, log_lik) \<and>
      new ! i = - log_lik"
    by blast
  obtain m V ll where r: "res = (m, V, ll)" by (cases res) auto
  have "new ! 0 = - ll" "new ! 1 = - ll"
    using e res r by auto
  then show ?thesis using n(1,2) res r by auto
qed

section \<open>The triangular solves of a run\<close>

lemma snd_logging: "snd (logging r f) = raising (snd r) (\<lambda>x. snd (f x))"
  by (cases "snd r") (simp_all add: logging_def raising_def)

lemma logging_Inr [simp]: "logging (cs, Inr x) f = (cs @ fst (f x), snd (f x))"
  by (simp add: logging_def)

lemma logging_Inl [simp]: "logging (cs, Inl e) f = (cs, Inl e)"
  by (simp add: logging_def)

lemma gp_inference_calls_result:
  "snd (gp_inference_calls obs_x obs_t x_new params prior_mean)
     = gp_inference obs_x obs_t x_new params prior_mean"
  unfolding gp_inference_calls_def gp_inference_def Let_def snd_logging no_call_def
    trtrs_call_def snd_conv
  by (rule refl)


lemma gp_inference_calls_success:
  assumes K: "rbf_kernel obs_x obs_x l v = Inr K"
    and Ky: "noisy_cov K noise (length obs_x) = Inr K_y"
    and ch: "cholesky K_y = Inr L"
    and Ks: "rbf_kernel obs_x x_new l v = Inr Ks"
    and lent: "length obs_t = length obs_x"
  shows "\<exists>v0. trtrs Ks L False = Inr v0 \<and>
           fst (gp_inference_calls obs_x obs_t x_new (l, v, noise) prior_mean) =
             [Trtrs (unsqueeze_last (map (\<lambda>t. t - prior_mean) obs_t)) L False,
              Trtrs (unsqueeze_last
                       (forward_subst L (map (\<lambda>t. t - prior_mean) obs_t) (length obs_x)))
                    (mat_t (length obs_x) L) True,
              Trtrs Ks L False,
              Trtrs v0 (mat_t (length obs_x) L) True,
              Trtrs (unsqueeze_last (map (\<lambda>t. t - prior_mean) obs_t)) L False]"
proof -
  let ?N = "length obs_x"
  let ?t = "map (\<lambda>t. t - prior_mean) obs_t"
  let ?U = "mat_t ?N L"
  let ?z = "forward_subst L ?t ?N"
  let ?a = "backward_subst ?U ?z ?N ?N"
  have lenKy: "length K_y = ?N"
    using noisy_kernel_shape [OF K Ky] by simp
  have sh: "is_square K_y" "length L = ?N" "\<forall>i<?N. length (L ! i) = ?N \<and> 0 < L ! i ! i"
    using cholesky_shape [OF ch] lenKy by simp_all
  have sqL: "is_square L"
    using sh by (simp add: is_square_def list_all_length)
  have nzL: "\<forall>i<length L. L ! i ! i \<noteq> 0"
    using sh by auto
  have sqU: "is_square ?U"
    using is_square_mat_t [of L] sh(2) by simp
  have lenU: "length ?U = length L" using sh(2) by simp
  have nzU: "\<forall>i<length ?U. ?U ! i ! i \<noteq> 0"
    using sh by (auto simp: mat_t_nth_nth)
  have z: "trtrs (unsqueeze_last ?t) L False = Inr (unsqueeze_last ?z)"
    using trtrs_vec [OF sqL nzL, of ?t False] lent sh(2) by simp
  have a: "trtrs (unsqueeze_last ?z) ?U True = Inr (unsqueeze_last ?a)"
    using trtrs_vec [OF sqU nzU, of ?z True] by simp
  obtain Kp where Kp: "rbf_kernel x_new x_new l v = Inr Kp"
    using rbf_kernel_total by blast
  have shKs: "length Ks = length L" "\<forall>r\<in>set Ks. length r = length x_new"
    using rbf_kernel_shape [OF Ks] sh(2) by simp_all
  obtain v0 where v0: "trtrs Ks L False = Inr v0" "length v0 = length L"
      "\<forall>r\<in>set v0. length r = length x_new"
    using trtrs_total [OF sqL nzL shKs, of False] by blast
  obtain v1 where v1: "trtrs v0 ?U True = Inr v1"
    using trtrs_total [OF sqU nzU _ v0(3), of True] v0(2) lenU by auto
  have "fst (gp_inference_calls obs_x obs_t x_new (l, v, noise) prior_mean) =
             [Trtrs (unsqueeze_last ?t) L False, Trtrs (unsqueeze_last ?z) ?U True,
              Trtrs Ks L False, Trtrs v0 ?U True, Trtrs (unsqueeze_last ?t) L False]"
    unfolding gp_inference_calls_def Let_def no_call_def trtrs_call_def
    by (simp add: K Ky ch z a Ks Kp v0 v1)
  then show ?thesis using v0(1) by blast
qed

lemma cholesky_1x1:
  assumes "0 < a"
  shows "cholesky [[a]] = Inr [[sqrt a]]"
proof -
  have p: "chol_pivot [[a]] [] 0 = a"
    by (simp add: chol_pivot_def chol_off_def dot_def)
  have r: "chol_row [[a]] [] (Suc 0) 0 = [sqrt a]"
    by (simp add: chol_row_def p chol_off_def)
  have "chol_rows [[a]] (Suc 0) (Suc 0) = Some [[sqrt a]]"
    using assms by (simp add: p r)
  then show ?thesis by (simp add: cholesky_def is_square_def)
qed

text \<open>
  Claim C1 says that the \<open>z\<close> of the likelihood is the intermediate result of the
  \<open>alpha\<close> computation, reused and not recomputed. The source solves again: the first
  and the fifth \<open>torch.trtrs\<close> call of a run are the same forward solve of the targets
  against the Cholesky factor.
\<close>

theorem forward_solve_reuse_counterexample:
  "length (fst (gp_inference_calls [0] [3] [0] (1, 1, Scalar 1) 0)) = 5 \<and>
   fst (gp_inference_calls [0] [3] [0] (1, 1, Scalar 1) 0) ! 0
     = Trtrs [[3]] [[sqrt (exp (- clamp_floor / 2) + 1)]] False \<and>
   fst (gp_inference_calls [0] [3] [0] (1, 1, Scalar 1) 0) ! 4
     = Trtrs [[3]] [[sqrt (exp (- clamp_floor / 2) + 1)]] False"
proof -
  have K: "rbf_kernel [0] [0] 1 1 = Inr [[exp (- clamp_floor / 2)]]"
    by (rule rbf_kernel_single)
  have Ky: "noisy_cov [[exp (- clamp_floor / 2)]] (Scalar 1) (length [0::real])
              = Inr [[exp (- clamp_floor / 2) + 1]]"
    by (simp add: noisy_cov_single)
  have ch: "cholesky [[exp (- clamp_floor / 2) + 1]] = Inr [[sqrt (exp (- clamp_floor / 2) + 1)]]"
    by (intro cholesky_1x1) (simp add: add_pos_pos)
  have len: "length [3::real] = length [0::real]" by simp
  from gp_inference_calls_success [OF K Ky ch K len, of 0]
  show ?thesis
    by (auto simp: unsqueeze_last_def simp del: forward_subst.simps)
qed

text \<open>
  Claim C1, amended. Let \<open>t\<close> be the targets minus the prior mean and let the noise
  make \<open>K_y\<close> symmetric positive-definite, for at least one observation and one test
  point. Then \<open>gp_inference\<close> returns, and the log marginal likelihood it returns is
  \<open>- 1/2 * (sum of ln |L[i][i]|) - 1/2 * (sum of z[i]^2) - (N/2) * ln (2 pi)\<close>, where
  \<open>L\<close> is the lower Cholesky factor of \<open>K_y\<close> and \<open>z\<close> is the forward-substitution
  solution of \<open>L z = t\<close>. The run makes five \<open>torch.trtrs\<close> calls; the first, inside
  the \<open>alpha\<close> computation, and the fifth, for the likelihood, are the same forward
  solve of \<open>t\<close> against \<open>L\<close>: \<open>z\<close> is computed twice, with the same value.
\<close>

theorem log_marginal_likelihood:
  fixes obs_x obs_t x_new :: vec and prior_mean :: real
  defines "N \<equiv> length obs_x"
  defines "t \<equiv> map (\<lambda>y. y - prior_mean) obs_t"
  assumes K: "rbf_kernel obs_x obs_x lengthscale variance = Inr K"
    and Ky: "noisy_cov K noise N = Inr K_y"
    and S: "spd K_y"
    and lent: "length obs_t = N"
    and ne: "obs_x \<noteq> []" "x_new \<noteq> []"
  shows "\<exists>L z alpha m V K_obs_pred v0.
           cholesky K_y = Inr L \<and> lower_cholesky_factor L K_y \<and>
           z = forward_subst L t N \<and>
           (\<forall>i<N. (\<Sum>j<Suc i. L ! i ! j * z ! j) = t ! i) \<and>
           trtrs (unsqueeze_last t) L False = Inr (unsqueeze_last z) \<and>
           trtrs (unsqueeze_last z) (mat_t N L) True = Inr (unsqueeze_last alpha) \<and>
           gp_inference obs_x obs_t x_new (lengthscale, variance, noise) prior_mean =
             Inr (m, V,
                  - (1 / 2) * (\<Sum>i<N. ln \<bar>L ! i ! i\<bar>) - 1 / 2 * (\<Sum>i<N. (z ! i)\<^sup>2)
                  - real N / 2 * ln (2 * pi)) \<and>
           gp_inference_calls obs_x obs_t x_new (lengthscale, variance, noise) prior_mean =
             ([Trtrs (unsqueeze_last t) L False,
               Trtrs (unsqueeze_last z) (mat_t N L) True,
               Trtrs K_obs_pred L False,
               Trtrs v0 (mat_t N L) True,
               Trtrs (unsqueeze_last t) L False],
              Inr (m, V,
                   - (1 / 2) * (\<Sum>i<N. ln \<bar>L ! i ! i\<bar>) - 1 / 2 * (\<Sum>i<N. (z ! i)\<^sup>2)
                   - real N / 2 * ln (2 * pi)))"
proof -
  from log_lik_value [OF K Ky [unfolded N_def] S lent [unfolded N_def] ne, of prior_mean]
  obtain L alpha m V where
    ch: "cholesky K_y = Inr L" and F: "lower_cholesky_factor L K_y"
    and sol: "\<forall>i<N. (\<Sum>j<Suc i. L ! i ! j * forward_subst L t N ! j) = t ! i"
    and z: "trtrs (unsqueeze_last t) L False = Inr (unsqueeze_last (forward_subst L t N))"
    and a: "trtrs (unsqueeze_last (forward_subst L t N)) (mat_t N L) True
              = Inr (unsqueeze_last alpha)"
    and res: "gp_inference obs_x obs_t x_new (lengthscale, variance, noise) prior_mean =
             Inr (m, V,
                  - (1 / 2) * (\<Sum>i<N. ln \<bar>L ! i ! i\<bar>)
                  - 1 / 2 * (\<Sum>i<N. (forward_subst L t N ! i)\<^sup>2)
                  - real N / 2 * ln (2 * pi))"
    unfolding N_def t_def by blast
  obtain Ks where Ks: "rbf_kernel obs_x x_new lengthscale variance = Inr Ks"
    using rbf_kernel_total by blast
  from gp_inference_calls_success [OF K Ky [unfolded N_def] ch Ks lent [unfolded N_def],
      of prior_mean]
  obtain v0 where
    calls: "fst (gp_inference_calls obs_x obs_t x_new (lengthscale, variance, noise) prior_mean) =
             [Trtrs (unsqueeze_last t) L False,
              Trtrs (unsqueeze_last (forward_subst L t N)) (mat_t N L) True,
              Trtrs Ks L False,
              Trtrs v0 (mat_t N L) True,
              Trtrs (unsqueeze_last t) L False]"
    unfolding N_def t_def by blast
  have "gp_inference_calls obs_x obs_t x_new (lengthscale, variance, noise) prior_mean =
             ([Trtrs (unsqueeze_last t) L False,
               Trtrs (unsqueeze_last (forward_subst L t N)) (mat_t N L) True,
               Trtrs Ks L False,
               Trtrs v0 (mat_t N L) True,
               Trtrs (unsqueeze_last t) L False],
              Inr (m, V,
                   - (1 / 2) * (\<Sum>i<N. ln \<bar>L ! i ! i\<bar>)
                   - 1 / 2 * (\<Sum>i<N. (forward_subst L t N ! i)\<^sup>2)
                   - real N / 2 * ln (2 * pi)))"
    using calls res
      gp_inference_calls_result [of obs_x obs_t x_new "(lengthscale, variance, noise)" prior_mean]
    by (simp add: prod_eq_iff)
  then show ?thesis using ch F sol z a res by blast
qed

theorem log_marginal_likelihood_witness:
  "\<exists>L z m V.
      cholesky [[exp (- clamp_floor / 2) + 1]] = Inr L \<and>
      z = forward_subst L [1] 1 \<and>
      gp_inference [0] [1] [0] (1, 1, Scalar 1) 0 =
        Inr (m, V, - (1 / 2) * ln \<bar>L ! 0 ! 0\<bar> - 1 / 2 * (z ! 0)\<^sup>2 - 1 / 2 * ln (2 * pi)) \<and>
      fst (gp_inference_calls [0] [1] [0] (1, 1, Scalar 1) 0) ! 0 = Trtrs [[1]] L False \<and>
      fst (gp_inference_calls [0] [1] [0] (1, 1, Scalar 1) 0) ! 4 = Trtrs [[1]] L False"
proof -
  have K: "rbf_kernel [0] [0] 1 1 = Inr [[exp (- clamp_floor / 2)]]"
    by (rule rbf_kernel_single)
  have Ky: "noisy_cov [[exp (- clamp_floor / 2)]] (Scalar 1) (length [0::real])
              = Inr [[exp (- clamp_floor / 2) + 1]]"
    by (simp add: noisy_cov_single)
  have S: "spd [[exp (- clamp_floor / 2) + 1]]"
    by (intro spd_1x1) (simp add: add_pos_pos)
  have len: "length [1::real] = length [0::real]" by simp
  have ne: "[0::real] \<noteq> []" by simp
  from log_marginal_likelihood [OF K Ky S len ne ne, of 0]
  obtain L z m V c2 c3 c4 where
    "cholesky [[exp (- clamp_floor / 2) + 1]] = Inr L"
    "z = forward_subst L [1] 1"
    "gp_inference [0] [1] [0] (1, 1, Scalar 1) 0 =
        Inr (m, V, - (1 / 2) * ln \<bar>L ! 0 ! 0\<bar> - 1 / 2 * (z ! 0)\<^sup>2 - 1 / 2 * ln (2 * pi))"
    "fst (gp_inference_calls [0] [1] [0] (1, 1, Scalar 1) 0) =
       [Trtrs [[1]] L False, c2, c3, c4, Trtrs [[1]] L False]"
    by (auto simp: unsqueeze_last_def simp del: forward_subst.simps)
  then show ?thesis by (intro exI [of _ L] exI [of _ z] exI [of _ m] exI [of _ V]) simp
qed

end
